theory Spec2Isabelle
  imports Main "HOL-Library.Sublist" "HOL-Library.Word"
begin

section \<open>Data model (types.ts)\<close>

text \<open>
  A JavaScript string is a sequence of 16-bit code units. \<open>str\<close> turns a literal of the
  source (all of them are ASCII) into such a string. The union \<^verbatim>\<open>'c' | 'cpp'\<close> of
  \<^verbatim>\<open>FileNode.language\<close> and the union of \<^verbatim>\<open>TerminalLine.type\<close> are datatypes. The record
  fields carry a prefix, since \<^verbatim>\<open>id\<close> is a HOL constant and \<^verbatim>\<open>content\<close> is a field of both
  interfaces.
\<close>

type_synonym code_unit = "16 word"
type_synonym ustring = "code_unit list"

definition unit_of :: "char \<Rightarrow> code_unit" where
  "unit_of c = of_nat (of_char c)"

definition str :: "string \<Rightarrow> ustring" where
  "str s = map unit_of s"

datatype language = C | Cpp

record FileNode =
  file_id :: ustring
  file_name :: ustring
  file_content :: ustring
  file_language :: language

datatype line_type = Input | Output | Error | System

record TerminalLine =
  line_type :: line_type
  line_content :: ustring
  line_timestamp :: int

text \<open>The exceptions the program can raise.\<close>

datatype error = TypeError | SyntaxError

abbreviation nl :: code_unit where "nl \<equiv> unit_of (CHR 0x0A)"
abbreviation dq :: code_unit where "dq \<equiv> unit_of (CHR 0x22)"
abbreviation bs :: code_unit where "bs \<equiv> unit_of (CHR 0x5C)"

section \<open>The platform's JSON codec\<close>

text \<open>
  \<^verbatim>\<open>JSON.stringify\<close> and \<^verbatim>\<open>JSON.parse\<close> belong to the platform, not to the repository;
  they are modelled after ECMA-404 and the ECMAScript definition of \<^verbatim>\<open>QuoteJSONString\<close>.
  A value is the tree of the text: an object is the list of its members in the order of
  the text, and a number is carried as its literal (no field of a \<^verbatim>\<open>FileNode\<close> is a
  number, and the value of a literal as a double is not modelled).
\<close>

datatype json =
    JNull
  | JBool bool
  | JNumber ustring
  | JString ustring
  | JArray "json list"
  | JObject "(ustring \<times> json) list"

subsection \<open>JSON.stringify (without indentation)\<close>

definition hex_digit :: "nat \<Rightarrow> code_unit" where
  "hex_digit n = (if n < 10 then of_nat (48 + n) else of_nat (87 + n))"

text \<open>\<^verbatim>\<open>UnicodeEscape\<close>: backslash, u, and the four lower-case hexadecimal digits.\<close>

definition unicode_escape :: "code_unit \<Rightarrow> ustring" where
  "unicode_escape c =
     [bs, unit_of (CHR ''u''),
      hex_digit (unat c div 4096), hex_digit (unat c div 256 mod 16),
      hex_digit (unat c div 16 mod 16), hex_digit (unat c mod 16)]"

text \<open>A code unit that is not a surrogate.\<close>

definition escape :: "code_unit \<Rightarrow> ustring" where
  "escape c =
     (if c = dq then [bs, dq]
      else if c = bs then [bs, bs]
      else if c = unit_of (CHR 0x08) then [bs, unit_of (CHR ''b'')]
      else if c = unit_of (CHR 0x0C) then [bs, unit_of (CHR ''f'')]
      else if c = nl then [bs, unit_of (CHR ''n'')]
      else if c = unit_of (CHR 0x0D) then [bs, unit_of (CHR ''r'')]
      else if c = unit_of (CHR 0x09) then [bs, unit_of (CHR ''t'')]
      else if unat c < 32 then unicode_escape c
      else [c])"

definition is_high :: "code_unit \<Rightarrow> bool" where
  "is_high c = (0xD800 \<le> unat c \<and> unat c \<le> 0xDBFF)"

definition is_low :: "code_unit \<Rightarrow> bool" where
  "is_low c = (0xDC00 \<le> unat c \<and> unat c \<le> 0xDFFF)"

text \<open>
  The string is read as code points: a high surrogate followed by a low one is one code
  point and is copied; a surrogate on its own is escaped.
\<close>

fun quote_body :: "ustring \<Rightarrow> ustring" where
  "quote_body [] = []"
| "quote_body [c] = (if is_high c \<or> is_low c then unicode_escape c else escape c)"
| "quote_body (c # d # r) =
     (if is_high c \<and> is_low d then c # d # quote_body r
      else if is_high c \<or> is_low c then unicode_escape c @ quote_body (d # r)
      else escape c @ quote_body (d # r))"

definition quote :: "ustring \<Rightarrow> ustring" where
  "quote s = dq # quote_body s @ [dq]"

fun join :: "ustring \<Rightarrow> ustring list \<Rightarrow> ustring" where
  "join sep [] = []"
| "join sep [x] = x"
| "join sep (x # y # ys) = x @ sep @ join sep (y # ys)"

fun stringify :: "json \<Rightarrow> ustring" where
  "stringify JNull = str ''null''"
| "stringify (JBool b) = (if b then str ''true'' else str ''false'')"
| "stringify (JNumber l) = l"
| "stringify (JString s) = quote s"
| "stringify (JArray vs) = str ''['' @ join (str '','') (map stringify vs) @ str '']''"
| "stringify (JObject ms) =
     str ''{'' @
     join (str '','') (map (\<lambda>m. quote (fst m) @ unit_of (CHR '':'') # stringify (snd m)) ms) @
     str ''}''"

subsection \<open>JSON.parse\<close>

definition is_ws :: "code_unit \<Rightarrow> bool" where
  "is_ws c =
     (c = unit_of (CHR 0x20) \<or> c = unit_of (CHR 0x09) \<or> c = nl \<or> c = unit_of (CHR 0x0D))"

definition skip_ws :: "ustring \<Rightarrow> ustring" where
  "skip_ws s = dropWhile is_ws s"

definition is_digit :: "code_unit \<Rightarrow> bool" where
  "is_digit c = (48 \<le> unat c \<and> unat c \<le> 57)"

definition hex_val :: "code_unit \<Rightarrow> nat option" where
  "hex_val c =
     (let n = unat c
      in if 48 \<le> n \<and> n \<le> 57 then Some (n - 48)
         else if 97 \<le> n \<and> n \<le> 102 then Some (n - 87)
         else if 65 \<le> n \<and> n \<le> 70 then Some (n - 55)
         else None)"

definition hex4 :: "code_unit \<Rightarrow> code_unit \<Rightarrow> code_unit \<Rightarrow> code_unit \<Rightarrow> nat option" where
  "hex4 a b c d =
     (case (hex_val a, hex_val b, hex_val c, hex_val d) of
        (Some i, Some j, Some k, Some l) \<Rightarrow> Some (((i * 16 + j) * 16 + k) * 16 + l)
      | _ \<Rightarrow> None)"

definition unescape :: "code_unit \<Rightarrow> code_unit option" where
  "unescape e =
     (if e = dq then Some dq
      else if e = bs then Some bs
      else if e = unit_of (CHR ''/'') then Some (unit_of (CHR ''/''))
      else if e = unit_of (CHR ''b'') then Some (unit_of (CHR 0x08))
      else if e = unit_of (CHR ''f'') then Some (unit_of (CHR 0x0C))
      else if e = unit_of (CHR ''n'') then Some nl
      else if e = unit_of (CHR ''r'') then Some (unit_of (CHR 0x0D))
      else if e = unit_of (CHR ''t'') then Some (unit_of (CHR 0x09))
      else None)"

definition fmap :: "('a \<Rightarrow> 'b) \<Rightarrow> error + 'a \<times> ustring \<Rightarrow> error + 'b \<times> ustring" where
  "fmap f r = (case r of Inl e \<Rightarrow> Inl e | Inr (x, t) \<Rightarrow> Inr (f x, t))"

text \<open>
  The characters of a string after its opening quote, up to the closing one. Four
  hexadecimal digits give a number below 65536, that is, one code unit.
\<close>

fun chars :: "ustring \<Rightarrow> error + ustring \<times> ustring" where
  "chars [] = Inl SyntaxError"
| "chars (c # r) =
     (if c = dq then Inr ([], r)
      else if c = bs then
        (case r of
           [] \<Rightarrow> Inl SyntaxError
         | e # r' \<Rightarrow>
             if e = unit_of (CHR ''u'') then
               (case r' of
                  h1 # h2 # h3 # h4 # r'' \<Rightarrow>
                    (case hex4 h1 h2 h3 h4 of
                       None \<Rightarrow> Inl SyntaxError
                     | Some n \<Rightarrow> fmap (Cons (of_nat n)) (chars r''))
                | _ \<Rightarrow> Inl SyntaxError)
             else
               (case unescape e of
                  None \<Rightarrow> Inl SyntaxError
                | Some x \<Rightarrow> fmap (Cons x) (chars r')))
      else if unat c < 32 then Inl SyntaxError
      else fmap (Cons c) (chars r))"

definition exponent :: "ustring \<Rightarrow> ustring \<Rightarrow> error + ustring \<times> ustring" where
  "exponent lx s =
     (case s of
        [] \<Rightarrow> Inr (lx, s)
      | c # r \<Rightarrow>
          if c = unit_of (CHR ''e'') \<or> c = unit_of (CHR ''E'') then
            (let (sg, r1) =
               (case r of
                  [] \<Rightarrow> ([], r)
                | d # r' \<Rightarrow>
                    if d = unit_of (CHR ''+'') \<or> d = unit_of (CHR ''-'') then ([d], r')
                    else ([], r))
             in if takeWhile is_digit r1 = [] then Inl SyntaxError
                else Inr (lx @ c # sg @ takeWhile is_digit r1, dropWhile is_digit r1))
          else Inr (lx, s))"

definition fraction :: "ustring \<Rightarrow> ustring \<Rightarrow> error + ustring \<times> ustring" where
  "fraction lx s =
     (case s of
        [] \<Rightarrow> exponent lx s
      | c # r \<Rightarrow>
          if c = unit_of (CHR ''.'') then
            (if takeWhile is_digit r = [] then Inl SyntaxError
             else exponent (lx @ c # takeWhile is_digit r) (dropWhile is_digit r))
          else exponent lx s)"

definition number :: "ustring \<Rightarrow> error + ustring \<times> ustring" where
  "number s =
     (let (sg, s1) =
        (case s of
           [] \<Rightarrow> ([], s)
         | c # r \<Rightarrow> if c = unit_of (CHR ''-'') then ([c], r) else ([], s))
      in case s1 of
           [] \<Rightarrow> Inl SyntaxError
         | c # r \<Rightarrow>
             if c = unit_of (CHR ''0'') then fraction (sg @ [c]) r
             else if is_digit c
               then fraction (sg @ c # takeWhile is_digit r) (dropWhile is_digit r)
             else Inl SyntaxError)"

text \<open>
  The three mutually recursive parsers of a value, of the elements of an array and of the
  members of an object; each returns what it read and the rest of the text. The tests
  \<open>length r < length s\<close> always succeed (the rest of a successful parse is shorter than
  its input); they are what the termination proof rests on.
\<close>

function val :: "ustring \<Rightarrow> error + json \<times> ustring"
  and elements :: "ustring \<Rightarrow> error + json list \<times> ustring"
  and members :: "ustring \<Rightarrow> error + (ustring \<times> json) list \<times> ustring"
where
  "val s =
     (case s of
        [] \<Rightarrow> Inl SyntaxError
      | c # r \<Rightarrow>
          if c = unit_of (CHR ''['') then
            (case skip_ws r of
               [] \<Rightarrow> Inl SyntaxError
             | d # r' \<Rightarrow>
                 if d = unit_of (CHR '']'') then Inr (JArray [], r') else fmap JArray (elements (d # r')))
          else if c = unit_of (CHR ''{'') then
            (case skip_ws r of
               [] \<Rightarrow> Inl SyntaxError
             | d # r' \<Rightarrow>
                 if d = unit_of (CHR ''}'') then Inr (JObject [], r') else fmap JObject (members (d # r')))
          else if c = dq then fmap JString (chars r)
          else if take 4 s = str ''true'' then Inr (JBool True, drop 4 s)
          else if take 5 s = str ''false'' then Inr (JBool False, drop 5 s)
          else if take 4 s = str ''null'' then Inr (JNull, drop 4 s)
          else fmap JNumber (number s))"
| "elements s =
     (case val s of
        Inl e \<Rightarrow> Inl e
      | Inr (v, r) \<Rightarrow>
          (case skip_ws r of
             [] \<Rightarrow> Inl SyntaxError
           | c # r' \<Rightarrow>
               if c = unit_of (CHR '']'') then Inr ([v], r')
               else if c = unit_of (CHR '','') \<and> length r' < length s
                 then fmap (Cons v) (elements (skip_ws r'))
               else Inl SyntaxError))"
| "members s =
     (case s of
        [] \<Rightarrow> Inl SyntaxError
      | q # r \<Rightarrow>
          if q \<noteq> dq then Inl SyntaxError
          else
            (case chars r of
               Inl e \<Rightarrow> Inl e
             | Inr (k, r1) \<Rightarrow>
                 (case skip_ws r1 of
                    [] \<Rightarrow> Inl SyntaxError
                  | c # r2 \<Rightarrow>
                      if c = unit_of (CHR '':'') \<and> length r2 < length s then
                        (case val (skip_ws r2) of
                           Inl e \<Rightarrow> Inl e
                         | Inr (v, r3) \<Rightarrow>
                             (case skip_ws r3 of
                                [] \<Rightarrow> Inl SyntaxError
                              | c' # r4 \<Rightarrow>
                                  if c' = unit_of (CHR ''}'') then Inr ([(k, v)], r4)
                                  else if c' = unit_of (CHR '','') \<and> length r4 < length s
                                    then fmap (Cons (k, v)) (members (skip_ws r4))
                                  else Inl SyntaxError))
                      else Inl SyntaxError)))"
  by pat_completeness auto
termination
proof (relation "measure (\<lambda>x. case x of
          Inl s \<Rightarrow> 2 * length s
        | Inr (Inl s) \<Rightarrow> 2 * length s + 1
        | Inr (Inr s) \<Rightarrow> 2 * length s + 1)", goal_cases)
  case 1 show ?case by simp
next
  case (2 s c r d r')
  have "length (skip_ws r) \<le> length r" by (simp add: skip_ws_def length_dropWhile_le)
  with 2 show ?case by simp
next
  case (3 s c r d r')
  have "length (skip_ws r) \<le> length r" by (simp add: skip_ws_def length_dropWhile_le)
  with 3 show ?case by simp
next
  case 4 show ?case by simp
next
  case (5 s x v r c r')
  have "length (skip_ws r') \<le> length r'" by (simp add: skip_ws_def length_dropWhile_le)
  with 5 show ?case by simp
next
  case (6 s q r x k r1 c r2)
  have "length (skip_ws r2) \<le> length r2" by (simp add: skip_ws_def length_dropWhile_le)
  with 6 show ?case by simp
next
  case (7 s q r x k r1 c r2 y v r3 c' r4)
  have "length (skip_ws r4) \<le> length r4" by (simp add: skip_ws_def length_dropWhile_le)
  with 7 show ?case by simp
qed

declare val.simps [simp del] elements.simps [simp del] members.simps [simp del]

definition JSON_parse :: "ustring \<Rightarrow> error + json" where
  "JSON_parse s =
     (case val (skip_ws s) of
        Inl e \<Rightarrow> Inl e
      | Inr (v, r) \<Rightarrow> if skip_ws r = [] then Inr v else Inl SyntaxError)"

section \<open>The component state (App.tsx)\<close>

definition INITIAL_FILES :: "FileNode list" where
  "INITIAL_FILES =
    [\<lparr>file_id = str ''1'', file_name = str ''main.cpp'',
      file_content =
        str ''#include <iostream>'' @ [nl, nl] @ str ''int main() {'' @ [nl] @
        str ''    std::cout << '' @ [dq] @ str ''C++ Forge Professional Edition'' @ [dq] @
        str '' << std::endl;'' @ [nl] @
        str ''    std::cout << '' @ [dq] @ str ''Local high-performance environment initialized.'' @ [dq] @
        str '' << std::endl;'' @ [nl] @
        str ''    return 0;'' @ [nl] @ str ''}'',
      file_language = Cpp\<rparr>,
     \<lparr>file_id = str ''2'', file_name = str ''header.h'',
      file_content =
        str ''// Standard utility header'' @ [nl] @ str ''#ifndef UTILS_H'' @ [nl] @
        str ''#define UTILS_H'' @ [nl, nl] @ str ''void greet();'' @ [nl, nl] @ str ''#endif'',
      file_language = Cpp\<rparr>]"

text \<open>The four \<^verbatim>\<open>useState\<close> cells of the component.\<close>

record App =
  files :: "FileNode list"
  activeFileId :: ustring
  terminalLines :: "TerminalLine list"
  isRunning :: bool

text \<open>
  The initial values of the cells, from the loaded collection. \<^verbatim>\<open>files[0].id\<close> on an
  empty array reads a property of \<^verbatim>\<open>undefined\<close> and throws.
\<close>

definition initial :: "FileNode list \<Rightarrow> error + App" where
  "initial fs =
     (case fs of
        [] \<Rightarrow> Inl TypeError
      | f # _ \<Rightarrow> Inr \<lparr>files = fs, activeFileId = file_id f, terminalLines = [], isRunning = False\<rparr>)"

definition seed :: App where
  "seed = \<lparr>files = INITIAL_FILES, activeFileId = str ''1'', terminalLines = [], isRunning = False\<rparr>"

abbreviation ids :: "App \<Rightarrow> ustring list" where
  "ids s \<equiv> map file_id (files s)"

text \<open>
  \<^verbatim>\<open>files.find(f => f.id === activeFileId) || files[0]\<close>: \<open>None\<close> is \<^verbatim>\<open>undefined\<close>, the
  value of \<^verbatim>\<open>files[0]\<close> on an empty array.
\<close>

definition activeFile :: "App \<Rightarrow> FileNode option" where
  "activeFile s =
     (case find (\<lambda>f. file_id f = activeFileId s) (files s) of
        Some f \<Rightarrow> Some f
      | None \<Rightarrow> (case files s of [] \<Rightarrow> None | f # _ \<Rightarrow> Some f))"

definition setActiveFileId :: "ustring \<Rightarrow> App \<Rightarrow> App" where
  "setActiveFileId i s = s\<lparr>activeFileId := i\<rparr>"

text \<open>\<^verbatim>\<open>handleEditorChange\<close>: \<open>None\<close> is the \<^verbatim>\<open>undefined\<close> the editor may pass.\<close>

definition handleEditorChange :: "ustring option \<Rightarrow> App \<Rightarrow> App" where
  "handleEditorChange v s =
     (case v of
        None \<Rightarrow> s
      | Some x \<Rightarrow>
          s\<lparr>files := map (\<lambda>f. if file_id f = activeFileId s then f\<lparr>file_content := x\<rparr> else f)
                         (files s)\<rparr>)"

definition addLine :: "ustring \<Rightarrow> line_type \<Rightarrow> int \<Rightarrow> App \<Rightarrow> App" where
  "addLine c t now s =
     s\<lparr>terminalLines :=
         terminalLines s @ [\<lparr>line_type = t, line_content = c, line_timestamp = now\<rparr>]\<rparr>"

subsection \<open>createNewFile\<close>

text \<open>\<^verbatim>\<open>name.split('.')\<close>: the pieces between the separators; never an empty list.\<close>

fun split_on :: "code_unit \<Rightarrow> ustring \<Rightarrow> ustring \<Rightarrow> ustring list" where
  "split_on c acc [] = [rev acc]"
| "split_on c acc (x # xs) =
     (if x = c then rev acc # split_on c [] xs else split_on c (x # acc) xs)"

text \<open>\<^verbatim>\<open>pop()\<close>: the last element, \<^verbatim>\<open>undefined\<close> on an empty array.\<close>

definition pop :: "'a list \<Rightarrow> 'a option" where
  "pop xs = (case rev xs of [] \<Rightarrow> None | x # _ \<Rightarrow> Some x)"

text \<open>
  \<^verbatim>\<open>name.split('.').pop()?.toLowerCase()\<close>. \<^verbatim>\<open>toLowerCase\<close> is the platform's, with its
  Unicode tables: it is the parameter \<open>lower\<close> here and in what uses \<open>ext_of\<close>, and nothing
  is assumed about it.
\<close>

definition ext_of :: "(ustring \<Rightarrow> ustring) \<Rightarrow> ustring \<Rightarrow> ustring option" where
  "ext_of lower name = map_option lower (pop (split_on (unit_of (CHR ''.'')) [] name))"

definition skeleton :: "language \<Rightarrow> ustring" where
  "skeleton lang =
     (if lang = Cpp
      then str ''#include <iostream>'' @ [nl, nl] @ str ''int main() {'' @ [nl] @ str ''    return 0;'' @ [nl] @ str ''}''
      else str ''#include <stdio.h>'' @ [nl, nl] @ str ''int main() {'' @ [nl] @ str ''    return 0;'' @ [nl] @ str ''}'')"

definition newFile :: "ustring \<Rightarrow> ustring \<Rightarrow> language \<Rightarrow> FileNode" where
  "newFile rid name lang =
     \<lparr>file_id = rid, file_name = name, file_content = skeleton lang, file_language = lang\<rparr>"

definition appendFile :: "FileNode \<Rightarrow> App \<Rightarrow> App" where
  "appendFile f s = s\<lparr>files := files s @ [f], activeFileId := file_id f\<rparr>"

text \<open>
  \<open>answer\<close> is what \<^verbatim>\<open>prompt\<close> returns (\<open>None\<close> when the dialog is cancelled) and \<open>rid\<close>
  is the value of \<^verbatim>\<open>Math.random().toString(36).substr(2, 9)\<close>. The first component of
  the result is the message passed to \<^verbatim>\<open>alert\<close>, if any.
\<close>

definition createNewFile ::
  "(ustring \<Rightarrow> ustring) \<Rightarrow> ustring option \<Rightarrow> ustring \<Rightarrow> App \<Rightarrow> ustring option \<times> App" where
  "createNewFile lower answer rid s =
     (case answer of
        None \<Rightarrow> (None, s)
      | Some name \<Rightarrow>
          if name = [] then (None, s)
          else let ext = ext_of lower name in
            if ext = Some (str ''c'') then (None, appendFile (newFile rid name C) s)
            else if ext = Some (str ''cpp'') \<or> ext = Some (str ''h'') \<or> ext = Some (str ''hpp'')
              then (None, appendFile (newFile rid name Cpp) s)
            else (Some (str ''Please use .c or .cpp extensions.''), s))"

subsection \<open>deleteFile\<close>

text \<open>
  \<open>ok\<close> is the answer to \<^verbatim>\<open>confirm\<close>. \<^verbatim>\<open>remaining[0].id\<close> throws when nothing remains.
\<close>

definition deleteFile :: "ustring \<Rightarrow> bool \<Rightarrow> App \<Rightarrow> error + App" where
  "deleteFile i ok s =
     (if length (files s) \<le> 1 then Inr s
      else if \<not> ok then Inr s
      else
        let s' = s\<lparr>files := filter (\<lambda>f. file_id f \<noteq> i) (files s)\<rparr> in
        if activeFileId s = i then
          (case filter (\<lambda>f. file_id f \<noteq> i) (files s) of
             [] \<Rightarrow> Inl TypeError
           | f # _ \<Rightarrow> Inr (s'\<lparr>activeFileId := file_id f\<rparr>))
        else Inr s')"

subsection \<open>runCode\<close>

text \<open>
  \<^verbatim>\<open>runCode\<close> is an async function: it runs up to its first \<^verbatim>\<open>await\<close> when the button is
  clicked, and each of its three timers resumes it later. What is left to run is a
  continuation; the one after the first \<^verbatim>\<open>await\<close> holds the file name, which the closure
  captured when the function was called. Between two parts any other handler may run.
  Each \<^verbatim>\<open>addLine\<close> reads \<^verbatim>\<open>Date.now()\<close>; the readings are arguments.
\<close>

datatype continuation = Compile ustring | Link | Exec

text \<open>
  Lines 49 to 56, up to the first \<^verbatim>\<open>await\<close>. \<^verbatim>\<open>activeFile.name\<close> throws when
  \<^verbatim>\<open>activeFile\<close> is \<^verbatim>\<open>undefined\<close>. The second component is the continuation, \<open>None\<close>
  when the call returned at once.
\<close>

definition runCode :: "int \<Rightarrow> App \<Rightarrow> error + App \<times> continuation option" where
  "runCode now s =
     (if isRunning s then Inr (s, None)
      else
        case activeFile s of
          None \<Rightarrow> Inl TypeError
        | Some f \<Rightarrow>
            Inr (addLine (str ''$ g++ '' @ file_name f @ str '' -o output'') System now
                   (s\<lparr>isRunning := True, terminalLines := []\<rparr>),
                 Some (Compile (file_name f))))"

text \<open>Lines 57 to 59, lines 60 to 62 and lines 63 to 68.\<close>

definition resume_compile :: "ustring \<Rightarrow> int \<Rightarrow> App \<Rightarrow> App" where
  "resume_compile name now s = addLine (str ''Compiling '' @ name @ str ''...'') Output now s"

definition resume_link :: "int \<Rightarrow> App \<Rightarrow> App" where
  "resume_link now s = addLine (str ''Linking objects...'') Output now s"

definition resume_exec :: "int \<Rightarrow> int \<Rightarrow> int \<Rightarrow> App \<Rightarrow> App" where
  "resume_exec now1 now2 now3 s =
     (addLine (str ''Process finished with exit code 0'') System now3
       (addLine (str ''Note: This is a frontend simulation. Native system execution is '' @
                 str ''restricted in the browser environment.'') System now2
         (addLine (str ''$ ./output'') System now1 s)))\<lparr>isRunning := False\<rparr>"

section \<open>Persistence\<close>

text \<open>
  The JavaScript value of a collection. The properties of a \<^verbatim>\<open>FileNode\<close> are created in
  the order \<^verbatim>\<open>id\<close>, \<^verbatim>\<open>name\<close>, \<^verbatim>\<open>language\<close>, \<^verbatim>\<open>content\<close> (lines 8 to 13 and 84 to 89), and
  the spread of \<^verbatim>\<open>handleEditorChange\<close> keeps that order.
\<close>

definition language_name :: "language \<Rightarrow> ustring" where
  "language_name l = (case l of C \<Rightarrow> str ''c'' | Cpp \<Rightarrow> str ''cpp'')"

definition js_of_file :: "FileNode \<Rightarrow> json" where
  "js_of_file f =
     JObject [(str ''id'', JString (file_id f)), (str ''name'', JString (file_name f)),
              (str ''language'', JString (language_name (file_language f))),
              (str ''content'', JString (file_content f))]"

definition js_of_files :: "FileNode list \<Rightarrow> json" where
  "js_of_files fs = JArray (map js_of_file fs)"

text \<open>\<^verbatim>\<open>JSON.stringify(files)\<close>, the text written under \<^verbatim>\<open>STORAGE_KEY\<close>.\<close>

definition persist :: "FileNode list \<Rightarrow> ustring" where
  "persist fs = stringify (js_of_files fs)"

text \<open>
  The initializer of \<^verbatim>\<open>files\<close> (lines 25 to 28). \<open>saved\<close> is the result of
  \<^verbatim>\<open>localStorage.getItem\<close>: \<open>None\<close> is \<^verbatim>\<open>null\<close>, and the empty string is falsy as well.
  \<^verbatim>\<open>JSON.parse\<close> is not guarded and its result is not checked, so the result is a
  JavaScript value, whatever its shape.
\<close>

definition load :: "ustring option \<Rightarrow> error + json" where
  "load saved =
     (case saved of
        None \<Rightarrow> Inr (js_of_files INITIAL_FILES)
      | Some text \<Rightarrow> if text = [] then Inr (js_of_files INITIAL_FILES) else JSON_parse text)"

section \<open>The component with its environment\<close>

text \<open>
  The component state, the continuation of a simulation that is under way, and the
  storage slot. \<open>sync\<close> is the effect of lines 35 to 37, which runs after the first render
  and after every render that follows a \<^verbatim>\<open>setFiles\<close>: when a file was appended, when
  \<^verbatim>\<open>deleteFile\<close> went past its two guards, and when the editor passed a value.
  One continuation is enough: \<^verbatim>\<open>runCode\<close> starts nothing while \<^verbatim>\<open>isRunning\<close> is true, and the
  flag is true whenever a continuation is pending (see C9).
\<close>

record Sys =
  app :: App
  pending :: "continuation option"
  slot :: "ustring option"

definition sync :: "Sys \<Rightarrow> Sys" where
  "sync w = w\<lparr>slot := Some (persist (files (app w)))\<rparr>"

definition mount :: "FileNode list \<Rightarrow> error + Sys" where
  "mount fs =
     (case initial fs of
        Inl e \<Rightarrow> Inl e
      | Inr s \<Rightarrow> Inr (sync \<lparr>app = s, pending = None, slot = None\<rparr>))"

definition saveFiles :: "int \<Rightarrow> Sys \<Rightarrow> Sys" where
  "saveFiles now w =
     (sync w)\<lparr>app := addLine (str ''System: Workspace saved to local storage.'') System now (app w)\<rparr>"

text \<open>
  What the user and the timers can do. A row of the explorer exists for the listed files
  only (lines 130 to 133), so \<open>Select\<close> carries the id of one of them and is ignored
  otherwise; a timer fires only when the continuation it resumes is the pending one.
\<close>

datatype event =
    Run int
  | CompileTimer int
  | LinkTimer int
  | ExecTimer int int int
  | Save int
  | Create "ustring option" ustring
  | Delete ustring bool
  | Select ustring
  | Edit "ustring option"

fun step :: "(ustring \<Rightarrow> ustring) \<Rightarrow> event \<Rightarrow> Sys \<Rightarrow> error + Sys" where
  "step lower (Run now) w =
     (case runCode now (app w) of
        Inl e \<Rightarrow> Inl e
      | Inr (s, None) \<Rightarrow> Inr (w\<lparr>app := s\<rparr>)
      | Inr (s, Some k) \<Rightarrow> Inr (w\<lparr>app := s, pending := Some k\<rparr>))"
| "step lower (CompileTimer now) w =
     (case pending w of
        Some (Compile name) \<Rightarrow>
          Inr (w\<lparr>app := resume_compile name now (app w), pending := Some Link\<rparr>)
      | _ \<Rightarrow> Inr w)"
| "step lower (LinkTimer now) w =
     (case pending w of
        Some Link \<Rightarrow> Inr (w\<lparr>app := resume_link now (app w), pending := Some Exec\<rparr>)
      | _ \<Rightarrow> Inr w)"
| "step lower (ExecTimer now1 now2 now3) w =
     (case pending w of
        Some Exec \<Rightarrow> Inr (w\<lparr>app := resume_exec now1 now2 now3 (app w), pending := None\<rparr>)
      | _ \<Rightarrow> Inr w)"
| "step lower (Save now) w = Inr (saveFiles now w)"
| "step lower (Create answer rid) w =
     (let s = snd (createNewFile lower answer rid (app w))
      in if files s = files (app w) then Inr w else Inr (sync (w\<lparr>app := s\<rparr>)))"
| "step lower (Delete i ok) w =
     (case deleteFile i ok (app w) of
        Inl e \<Rightarrow> Inl e
      | Inr s \<Rightarrow>
          if length (files (app w)) \<le> 1 \<or> \<not> ok then Inr w else Inr (sync (w\<lparr>app := s\<rparr>)))"
| "step lower (Select i) w =
     (if i \<in> set (ids (app w)) then Inr (w\<lparr>app := setActiveFileId i (app w)\<rparr>) else Inr w)"
| "step lower (Edit v) w =
     (if v = None then Inr w else Inr (sync (w\<lparr>app := handleEditorChange v (app w)\<rparr>)))"

text \<open>
  A sequence of events; the component is gone after the first exception. (A state with an
  empty collection cannot be rendered at all: line 29 reads \<^verbatim>\<open>files[0].id\<close> in every
  render.)
\<close>

fun exec :: "(ustring \<Rightarrow> ustring) \<Rightarrow> event list \<Rightarrow> Sys \<Rightarrow> error + Sys" where
  "exec lower [] w = Inr w"
| "exec lower (e # es) w =
     (case step lower e w of Inl x \<Rightarrow> Inl x | Inr w' \<Rightarrow> exec lower es w')"

text \<open>
  \<open>fresh es w\<close>: along the run of \<open>es\<close> from \<open>w\<close>, every id that \<^verbatim>\<open>Math.random\<close> yields for
  a file that is created differs from the ids of the files in the collection.
\<close>

fun fresh :: "(ustring \<Rightarrow> ustring) \<Rightarrow> event list \<Rightarrow> Sys \<Rightarrow> bool" where
  "fresh lower [] w = True"
| "fresh lower (e # es) w =
     ((case e of
         Create answer rid \<Rightarrow>
           rid \<notin> set (ids (app w)) \<or> files (snd (createNewFile lower answer rid (app w))) = files (app w)
       | _ \<Rightarrow> True)
      \<and> (case step lower e w of Inl x \<Rightarrow> True | Inr w' \<Rightarrow> fresh lower es w'))"

section \<open>Notions used in the statements\<close>

text \<open>The built-in workspace as the component has it after its first render.\<close>

abbreviation sys0 :: Sys where
  "sys0 \<equiv> \<lparr>app = seed, pending = None, slot = Some (persist INITIAL_FILES)\<rparr>"

text \<open>
  \<^verbatim>\<open>toLowerCase\<close> as it is on ASCII text. It stands for the parameter \<open>lower\<close> in the
  examples, whose file names are ASCII.
\<close>

definition ascii_lower :: "ustring \<Rightarrow> ustring" where
  "ascii_lower s = map (\<lambda>c. if 65 \<le> unat c \<and> unat c \<le> 90 then c + 32 else c) s"

text \<open>
  The events of one complete simulation with nothing in between, and the lines such a
  simulation writes for a file name (lines 53 to 66), with the six clock readings.
\<close>

definition run_events :: "int \<Rightarrow> int \<Rightarrow> int \<Rightarrow> int \<Rightarrow> int \<Rightarrow> int \<Rightarrow> event list" where
  "run_events t0 t1 t2 t3 t4 t5 = [Run t0, CompileTimer t1, LinkTimer t2, ExecTimer t3 t4 t5]"

definition run_lines :: "ustring \<Rightarrow> int \<Rightarrow> int \<Rightarrow> int \<Rightarrow> int \<Rightarrow> int \<Rightarrow> int \<Rightarrow> TerminalLine list" where
  "run_lines name t0 t1 t2 t3 t4 t5 =
     [\<lparr>line_type = System, line_content = (str ''$ g++ '') @ name @ (str '' -o output''), line_timestamp = t0\<rparr>,
      \<lparr>line_type = Output, line_content = (str ''Compiling '') @ name @ (str ''...''), line_timestamp = t1\<rparr>,
      \<lparr>line_type = Output, line_content = (str ''Linking objects...''), line_timestamp = t2\<rparr>,
      \<lparr>line_type = System, line_content = (str ''$ ./output''), line_timestamp = t3\<rparr>,
      \<lparr>line_type = System,
       line_content = (str ''Note: This is a frontend simulation. Native system execution is '') @
                      (str ''restricted in the browser environment.''),
       line_timestamp = t4\<rparr>,
      \<lparr>line_type = System, line_content = (str ''Process finished with exit code 0''),
       line_timestamp = t5\<rparr>]"

text \<open>
  The invariant of the workspace: some buffer exists, no two buffers share an id, and the
  active pointer is the id of a buffer.
\<close>

definition workspace_inv :: "App \<Rightarrow> bool" where
  "workspace_inv s = (files s \<noteq> [] \<and> distinct (ids s) \<and> activeFileId s \<in> set (ids s))"

text \<open>
  The events that write nothing to the log while a simulation is under way: all but the
  save button and the timers. (A \<open>Run\<close> is refused then.)
\<close>

definition quiet :: "event \<Rightarrow> bool" where
  "quiet e =
     (case e of
        Save now \<Rightarrow> False
      | CompileTimer now \<Rightarrow> False
      | LinkTimer now \<Rightarrow> False
      | ExecTimer now1 now2 now3 \<Rightarrow> False
      | _ \<Rightarrow> True)"

text \<open>
  Values without numbers, as the values of buffer collections are, and texts that start
  as the text of such a value does.
\<close>

fun number_free :: "json \<Rightarrow> bool" where
  "number_free (JNumber l) = False"
| "number_free (JArray vs) = list_all number_free vs"
| "number_free (JObject ms) = list_all (\<lambda>m. number_free (snd m)) ms"
| "number_free v = True"

definition starts_value :: "ustring \<Rightarrow> bool" where
  "starts_value s =
     (case s of [] \<Rightarrow> False
      | c # _ \<Rightarrow> c = unit_of (CHR ''n'') \<or> c = unit_of (CHR ''t'') \<or> c = unit_of (CHR ''f'') \<or> c = dq \<or> c = unit_of (CHR ''['') \<or> c = unit_of (CHR ''{''))"

section \<open>Strings of code units\<close>

lemma unat_unit_of [simp]: "unat (unit_of c) = of_char c"
proof -
  have "(of_char c :: nat) < 65536"
    using nat_of_char_less_256[of c] by linarith
  then show ?thesis by (simp add: unit_of_def unat_of_nat)
qed

lemma unit_of_eq_iff [simp]: "unit_of a = unit_of b \<longleftrightarrow> a = b"
proof
  assume "unit_of a = unit_of b"
  then have "unat (unit_of a) = unat (unit_of b)" by simp
  then show "a = b" by simp
qed simp

lemma str_Nil: "str [] = []"
  by (simp add: str_def)

lemma str_Cons: "str (c # s) = unit_of c # str s"
  by (simp add: str_def)

lemma str_append: "str (a @ b) = str a @ str b"
  by (simp add: str_def)

lemma str_eq_iff: "str a = str b \<longleftrightarrow> a = b"
  by (simp add: str_def inj_map_eq_map inj_def)

lemma str_eq_Nil: "str a = [] \<longleftrightarrow> a = []"
  by (simp add: str_def)

lemmas str_simps = str_Nil str_Cons

section \<open>The codec: parsing what was printed\<close>

declare str_simps [simp]

lemma unat_of_nat16: "m < 65536 \<Longrightarrow> unat (of_nat m :: 16 word) = m"
  by (simp add: unat_of_nat)

lemma unat_hex_digit: "k < 16 \<Longrightarrow> unat (hex_digit k) = (if k < 10 then 48 + k else 87 + k)"
proof (cases "k < 10")
  case True
  assume "k < 16"
  then have "unat (of_nat (48 + k) :: 16 word) = 48 + k" by (intro unat_of_nat16) simp
  with True show ?thesis by (simp only: hex_digit_def if_True)
next
  case False
  assume "k < 16"
  then have "unat (of_nat (87 + k) :: 16 word) = 87 + k" by (intro unat_of_nat16) simp
  with False show ?thesis by (simp only: hex_digit_def if_False)
qed

lemma hex_val_hex_digit: "k < 16 \<Longrightarrow> hex_val (hex_digit k) = Some k"
  by (simp add: hex_val_def unat_hex_digit Let_def)

lemma hex_digits_value:
  "((n div 4096 * 16 + n div 256 mod 16) * 16 + n div 16 mod 16) * 16 + n mod 16 = (n::nat)"
proof -
  have a: "n div 256 = n div 16 div 16" by (simp add: div_mult2_eq[symmetric])
  have b: "n div 4096 = n div 16 div 16 div 16" by (simp add: div_mult2_eq[symmetric])
  show ?thesis unfolding a b by (simp only: div_mult_mod_eq)
qed

lemma hex4_digits:
  assumes "n < 65536"
  shows "hex4 (hex_digit (n div 4096)) (hex_digit (n div 256 mod 16))
              (hex_digit (n div 16 mod 16)) (hex_digit (n mod 16)) = Some n"
proof -
  have a: "hex_val (hex_digit (n div 4096)) = Some (n div 4096)"
    using assms by (intro hex_val_hex_digit) simp
  have b: "hex_val (hex_digit (n div 256 mod 16)) = Some (n div 256 mod 16)"
    by (intro hex_val_hex_digit) simp
  have c: "hex_val (hex_digit (n div 16 mod 16)) = Some (n div 16 mod 16)"
    by (intro hex_val_hex_digit) simp
  have d: "hex_val (hex_digit (n mod 16)) = Some (n mod 16)"
    by (intro hex_val_hex_digit) simp
  show ?thesis
    unfolding hex4_def a b c d by (simp only: prod.case option.case hex_digits_value)
qed

lemma chars_unicode_escape: "chars (unicode_escape c @ t) = fmap (Cons c) (chars t)"
proof -
  have "unat c < 65536" using unsigned_less[of c] by simp
  from hex4_digits[OF this] show ?thesis
    by (simp add: unicode_escape_def)
qed

lemma chars_raw:
  "c \<noteq> dq \<Longrightarrow> c \<noteq> bs \<Longrightarrow> \<not> unat c < 32 \<Longrightarrow> chars (c # t) = fmap (Cons c) (chars t)"
  by simp

lemma chars_escape_step: "chars (escape c @ t) = fmap (Cons c) (chars t)"
proof -
  consider "c = dq" | "c = bs" | "c = unit_of (CHR 0x08)" | "c = unit_of (CHR 0x0C)" | "c = nl"
    | "c = unit_of (CHR 0x0D)" | "c = unit_of (CHR 0x09)"
    | "c \<noteq> dq" "c \<noteq> bs" "c \<noteq> unit_of (CHR 0x08)" "c \<noteq> unit_of (CHR 0x0C)" "c \<noteq> nl"
      "c \<noteq> unit_of (CHR 0x0D)" "c \<noteq> unit_of (CHR 0x09)" "unat c < 32"
    | "c \<noteq> dq" "c \<noteq> bs" "\<not> unat c < 32"
    by (cases "unat c < 32") auto
  then show ?thesis
  proof cases
    case 8
    then show ?thesis by (simp add: escape_def chars_unicode_escape)
  next
    case 9
    then have "escape c = [c]" by (auto simp: escape_def)
    with 9 show ?thesis by simp
  qed (simp_all add: escape_def unescape_def)
qed

lemma surrogate_raw:
  assumes "is_high c \<or> is_low c"
  shows "c \<noteq> dq" "c \<noteq> bs" "\<not> unat c < 32"
  using assms by (auto simp: is_high_def is_low_def)

lemma chars_quote_body: "chars (quote_body s @ dq # t) = Inr (s, t)"
proof (induction s rule: quote_body.induct)
  case 1
  show ?case by simp
next
  case (2 c)
  show ?case
    by (simp add: chars_unicode_escape chars_escape_step fmap_def)
next
  case (3 c d r)
  show ?case
  proof (cases "is_high c \<and> is_low d")
    case True
    have "chars (c # d # quote_body r @ dq # t) =
            fmap (Cons c) (fmap (Cons d) (chars (quote_body r @ dq # t)))"
      using True surrogate_raw[of c] surrogate_raw[of d]
      by (simp only: chars_raw simp_thms)
    moreover have "quote_body (c # d # r) = c # d # quote_body r"
      using True by (simp only: quote_body.simps if_True simp_thms)
    ultimately show ?thesis
      using "3.IH"(1)[OF True] by (simp add: fmap_def del: quote_body.simps chars.simps)
  next
    case False
    note nopair = this
    show ?thesis
    proof (cases "is_high c \<or> is_low c")
      case True
      have "quote_body (c # d # r) = unicode_escape c @ quote_body (d # r)"
        using nopair True by (simp only: quote_body.simps if_False if_True simp_thms)
      then show ?thesis
        using "3.IH"(2)[OF nopair True]
        by (simp add: chars_unicode_escape fmap_def del: quote_body.simps chars.simps)
    next
      case False
      have "quote_body (c # d # r) = escape c @ quote_body (d # r)"
        using nopair False by (simp only: quote_body.simps if_False simp_thms)
      then show ?thesis
        using "3.IH"(3)[OF nopair False]
        by (simp add: chars_escape_step fmap_def del: quote_body.simps chars.simps)
    qed
  qed
qed

lemma val_quote: "val (quote s @ t) = Inr (JString s, t)"
  by (simp add: quote_def val.simps chars_quote_body fmap_def)

lemma starts_value_skip_ws: "starts_value s \<Longrightarrow> skip_ws s = s"
  by (auto simp: starts_value_def skip_ws_def is_ws_def split: list.splits)

lemma starts_value_quote: "starts_value (quote s @ t)"
  by (simp add: starts_value_def quote_def)

lemma starts_value_stringify: "number_free v \<Longrightarrow> starts_value (stringify v @ t)"
  by (cases v) (simp_all add: starts_value_def quote_def)

lemma starts_value_join: "(\<And>t. starts_value (x @ t)) \<Longrightarrow> starts_value (join sep (x # xs) @ t)"
  by (cases xs) simp_all

lemma skip_ws_Nil: "skip_ws [] = []"
  by (simp add: skip_ws_def)

lemma starts_value_Cons: "starts_value s \<Longrightarrow> \<exists>c r. s = c # r \<and> c \<noteq> unit_of (CHR '']'') \<and> c \<noteq> unit_of (CHR ''}'')"
  by (auto simp: starts_value_def split: list.splits)

lemma skip_ws_close: "skip_ws (unit_of (CHR '']'') # t) = unit_of (CHR '']'') # t" "skip_ws (unit_of (CHR ''}'') # t) = unit_of (CHR ''}'') # t"
  "skip_ws (unit_of (CHR '','') # t) = unit_of (CHR '','') # t" "skip_ws (unit_of (CHR '':'') # t) = unit_of (CHR '':'') # t"
  by (simp_all add: skip_ws_def is_ws_def)

lemma elements_join:
  assumes "vs \<noteq> []"
    and "\<And>v t. v \<in> set vs \<Longrightarrow> val (stringify v @ t) = Inr (v, t)"
    and "\<And>v. v \<in> set vs \<Longrightarrow> number_free v"
  shows "elements (join [unit_of (CHR '','')] (map stringify vs) @ unit_of (CHR '']'') # t) = Inr (vs, t)"
  using assms
proof (induction vs rule: list_nonempty_induct)
  case (single v)
  then show ?case
    by (subst elements.simps) (simp add: skip_ws_close)
next
  case (cons v vs)
  obtain w ws where vs: "vs = w # ws" using cons.hyps by (cases vs) auto
  let ?R = "join [unit_of (CHR '','')] (map stringify vs) @ unit_of (CHR '']'') # t"
  have sv: "starts_value ?R"
    unfolding vs using cons.prems(2)[of w]
    by (simp add: vs starts_value_stringify starts_value_join del: join.simps)
  have ih: "elements ?R = Inr (vs, t)"
    using cons.IH cons.prems by simp
  have v: "val (stringify v @ unit_of (CHR '','') # ?R) = Inr (v, unit_of (CHR '','') # ?R)"
    using cons.prems(1)[of v] by simp
  have "elements (stringify v @ unit_of (CHR '','') # ?R) = Inr (v # vs, t)"
    by (subst elements.simps) (simp add: v skip_ws_close starts_value_skip_ws[OF sv] ih fmap_def)
  then show ?case by (simp add: vs)
qed

lemma members_join:
  assumes "ms \<noteq> []"
    and "\<And>m t. m \<in> set ms \<Longrightarrow> val (stringify (snd m) @ t) = Inr (snd m, t)"
    and "\<And>m. m \<in> set ms \<Longrightarrow> number_free (snd m)"
  shows "members (join [unit_of (CHR '','')] (map (\<lambda>m. quote (fst m) @ unit_of (CHR '':'') # stringify (snd m)) ms) @ unit_of (CHR ''}'') # t)
           = Inr (ms, t)"
  using assms
proof (induction ms rule: list_nonempty_induct)
  case (single m)
  have sv: "starts_value (stringify (snd m) @ unit_of (CHR ''}'') # t)"
    using single(2)[of m] by (simp add: starts_value_stringify)
  have "members (dq # quote_body (fst m) @ dq # unit_of (CHR '':'') # stringify (snd m) @ unit_of (CHR ''}'') # t)
          = Inr ([m], t)"
    by (subst members.simps)
      (simp add: chars_quote_body skip_ws_close starts_value_skip_ws[OF sv] single(1)[of m])
  then show ?case by (simp add: quote_def)
next
  case (cons m ms)
  obtain w ws where ms: "ms = w # ws" using cons.hyps by (cases ms) auto
  let ?R = "join [unit_of (CHR '','')] (map (\<lambda>m. quote (fst m) @ unit_of (CHR '':'') # stringify (snd m)) ms) @ unit_of (CHR ''}'') # t"
  have svR: "starts_value ?R"
    unfolding ms by (simp add: starts_value_quote starts_value_join del: join.simps)
  have ih: "members ?R = Inr (ms, t)"
    using cons.IH cons.prems by simp
  have sv: "starts_value (stringify (snd m) @ unit_of (CHR '','') # ?R)"
    using cons.prems(2)[of m] by (simp add: starts_value_stringify)
  have "members (dq # quote_body (fst m) @ dq # unit_of (CHR '':'') # stringify (snd m) @ unit_of (CHR '','') # ?R)
          = Inr (m # ms, t)"
    by (subst members.simps)
      (simp add: chars_quote_body skip_ws_close starts_value_skip_ws[OF sv] cons.prems(1)[of m]
         starts_value_skip_ws[OF svR] ih fmap_def)
  then show ?case by (simp add: ms quote_def)
qed

lemma val_stringify: "number_free v \<Longrightarrow> val (stringify v @ t) = Inr (v, t)"
proof (induction v arbitrary: t)
  case JNull
  show ?case by (simp add: val.simps)
next
  case (JBool b)
  show ?case by (simp add: val.simps)
next
  case (JNumber l)
  then show ?case by simp
next
  case (JString s)
  show ?case using val_quote by simp
next
  case (JArray vs)
  show ?case
  proof (cases vs)
    case Nil
    then show ?thesis by (simp add: val.simps skip_ws_close)
  next
    case (Cons w ws)
    let ?E = "join [unit_of (CHR '','')] (map stringify vs) @ unit_of (CHR '']'') # t"
    have nf: "\<And>v. v \<in> set vs \<Longrightarrow> number_free v"
      using JArray.prems by (simp add: list_all_iff)
    have sv: "starts_value ?E"
      unfolding Cons using nf[of w]
      by (simp add: Cons starts_value_stringify starts_value_join del: join.simps)
    obtain c r where E: "?E = c # r" "c \<noteq> unit_of (CHR '']'')"
      using starts_value_Cons[OF sv] by blast
    have el: "elements ?E = Inr (vs, t)"
      using elements_join[of vs t] JArray.IH nf Cons by simp
    have "val (unit_of (CHR ''['') # ?E) = Inr (JArray vs, t)"
      apply (subst val.simps)
      apply (simp add: starts_value_skip_ws[OF sv])
      apply (simp only: E list.case)
      apply (simp add: E(2))
      apply (simp only: E(1)[symmetric] el)
      apply (simp add: fmap_def)
      done
    then show ?thesis by simp
  qed
next
  case (JObject ms)
  show ?case
  proof (cases ms)
    case Nil
    then show ?thesis by (simp add: val.simps skip_ws_close)
  next
    case (Cons w ws)
    let ?E = "join [unit_of (CHR '','')] (map (\<lambda>m. quote (fst m) @ unit_of (CHR '':'') # stringify (snd m)) ms) @ unit_of (CHR ''}'') # t"
    have nf: "\<And>m. m \<in> set ms \<Longrightarrow> number_free (snd m)"
      using JObject.prems by (simp add: list_all_iff)
    have sv: "starts_value ?E"
      unfolding Cons by (simp add: starts_value_quote starts_value_join del: join.simps)
    obtain c r where E: "?E = c # r" "c \<noteq> unit_of (CHR ''}'')"
      using starts_value_Cons[OF sv] by blast
    have ih: "\<And>m t. m \<in> set ms \<Longrightarrow> val (stringify (snd m) @ t) = Inr (snd m, t)"
    proof -
      fix m t assume m: "m \<in> set ms"
      have "snd m \<in> Basic_BNFs.snds m" by (cases m) simp
      then show "val (stringify (snd m) @ t) = Inr (snd m, t)"
        using JObject.IH[OF m] nf[OF m] by simp
    qed
    have el: "members ?E = Inr (ms, t)"
      using members_join[of ms t] ih nf Cons by simp
    have "val (unit_of (CHR ''{'') # ?E) = Inr (JObject ms, t)"
      apply (subst val.simps)
      apply (simp add: starts_value_skip_ws[OF sv])
      apply (simp only: E list.case)
      apply (simp add: E(2))
      apply (simp only: E(1)[symmetric] el)
      apply (simp add: fmap_def)
      done
    then show ?thesis by simp
  qed
qed

lemma parse_stringify: "number_free v \<Longrightarrow> JSON_parse (stringify v) = Inr v"
  using val_stringify[of v "[]"] starts_value_stringify[of v "[]"]
  by (simp add: JSON_parse_def starts_value_skip_ws skip_ws_Nil)

text \<open>
  The rest a parser returns is never longer than its input, so the length tests in
  \<open>elements\<close> and \<open>members\<close> hold whenever they are reached.
\<close>

lemma fmap_Inr: "fmap f x = Inr (y, r) \<Longrightarrow> \<exists>z. x = Inr (z, r) \<and> y = f z"
  by (auto simp: fmap_def split: sum.splits)

lemma chars_rest: "chars s = Inr (x, r) \<Longrightarrow> length r < length s"
proof (induction s arbitrary: x r rule: chars.induct)
  case 1
  then show ?case by simp
next
  case (2 c t)
  show ?case
    using "2.prems" "2.IH"
    by (auto split: if_splits list.splits option.splits dest!: fmap_Inr) force+
qed

lemma length_skip_ws: "length (skip_ws s) \<le> length s"
  by (simp add: skip_ws_def length_dropWhile_le)

lemma exponent_rest: "exponent lx s = Inr (x, r) \<Longrightarrow> length r \<le> length s"
  by (auto simp: exponent_def Let_def split: list.splits if_splits
      intro: le_trans[OF length_dropWhile_le])

lemma fraction_rest: "fraction lx s = Inr (x, r) \<Longrightarrow> length r \<le> length s"
  by (auto simp: fraction_def split: list.splits if_splits dest!: exponent_rest
      intro: le_trans[OF _ length_dropWhile_le] le_SucI)

lemma number_rest: "number s = Inr (x, r) \<Longrightarrow> length r \<le> length s"
  by (auto simp: number_def Let_def split: list.splits if_splits dest!: fraction_rest
      intro: le_trans[OF _ length_dropWhile_le] le_SucI)

lemma skip_ws_Cons_le: "skip_ws s = c # r \<Longrightarrow> length r < length s"
  using length_skip_ws[of s] by simp

lemma rest_le:
  "\<forall>v r. val s = Inr (v, r) \<longrightarrow> length r \<le> length s"
  "\<forall>vs r. elements s1 = Inr (vs, r) \<longrightarrow> length r \<le> length s1"
  "\<forall>ms r. members s2 = Inr (ms, r) \<longrightarrow> length r \<le> length s2"
proof (induction s and s1 and s2 rule: val_elements_members.induct)
  case (1 s)
  show ?case
  proof (intro allI impI)
    fix v r assume a: "val s = Inr (v, r)"
    show "length r \<le> length s"
    proof (cases s)
      case Nil
      with a show ?thesis by (simp add: val.simps)
    next
      case (Cons c t)
      consider "c = unit_of (CHR ''['')" | "c = unit_of (CHR ''{'')" | "c = dq"
        | "c \<noteq> unit_of (CHR ''['')" "c \<noteq> unit_of (CHR ''{'')" "c \<noteq> dq" by blast
      then show ?thesis
      proof cases
        case 1
        show ?thesis
        proof (cases "skip_ws t")
          case Nil
          with a Cons 1 show ?thesis by (simp add: val.simps)
        next
          case (Cons d r')
          note sk = this
          show ?thesis
          proof (cases "d = unit_of (CHR '']'')")
            case True
            with a \<open>s = c # t\<close> 1 sk have "r = r'" by (simp add: val.simps)
            with skip_ws_Cons_le[OF sk] \<open>s = c # t\<close> show ?thesis by simp
          next
            case False
            with a \<open>s = c # t\<close> 1 sk obtain vs where "elements (d # r') = Inr (vs, r)"
              by (auto simp: val.simps dest!: fmap_Inr)
            with "1.IH"(1)[OF \<open>s = c # t\<close> 1 sk False] have "length r \<le> length (d # r')" by blast
            with length_skip_ws[of t] sk \<open>s = c # t\<close> show ?thesis by simp
          qed
        qed
      next
        case 2
        show ?thesis
        proof (cases "skip_ws t")
          case Nil
          with a Cons 2 show ?thesis by (simp add: val.simps)
        next
          case (Cons d r')
          note sk = this
          show ?thesis
          proof (cases "d = unit_of (CHR ''}'')")
            case True
            with a \<open>s = c # t\<close> 2 sk have "r = r'" by (simp add: val.simps)
            with skip_ws_Cons_le[OF sk] \<open>s = c # t\<close> show ?thesis by simp
          next
            case False
            with a \<open>s = c # t\<close> 2 sk obtain ms where "members (d # r') = Inr (ms, r)"
              by (auto simp: val.simps dest!: fmap_Inr)
            moreover have "c \<noteq> unit_of (CHR ''['')" using 2 by simp
            ultimately have "length r \<le> length (d # r')"
              using "1.IH"(2)[OF \<open>s = c # t\<close> _ 2 sk False] by blast
            with length_skip_ws[of t] sk \<open>s = c # t\<close> show ?thesis by simp
          qed
        qed
      next
        case 3
        with a Cons obtain x where "chars t = Inr (x, r)"
          by (auto simp: val.simps dest!: fmap_Inr)
        from chars_rest[OF this] Cons show ?thesis by simp
      next
        case 4
        with a Cons have "r = drop 4 s \<or> r = drop 5 s \<or> (\<exists>x. number s = Inr (x, r))"
          by (auto simp: val.simps split: if_splits dest!: fmap_Inr)
        then show ?thesis by (auto dest: number_rest)
      qed
    qed
  qed
next
  case (2 s)
  show ?case
  proof (intro allI impI)
    fix vs r assume a: "elements s = Inr (vs, r)"
    then obtain v r0 where v: "val s = Inr (v, r0)"
      by (subst (asm) elements.simps) (auto split: sum.splits)
    with "2.IH"(1) have le0: "length r0 \<le> length s" by blast
    from a v obtain c r' where sk: "skip_ws r0 = c # r'"
      by (subst (asm) elements.simps) (auto split: list.splits)
    have lt: "length r' < length s"
      using skip_ws_Cons_le[OF sk] le0 by simp
    show "length r \<le> length s"
    proof (cases "c = unit_of (CHR '']'')")
      case True
      with a v sk have "r = r'" by (subst (asm) elements.simps) simp
      with lt show ?thesis by simp
    next
      case False
      with a v sk have c: "c = unit_of (CHR '','')"
        by (subst (asm) elements.simps) (auto split: if_splits)
      with a v sk lt obtain ws where "elements (skip_ws r') = Inr (ws, r)"
        by (subst (asm) elements.simps) (auto dest!: fmap_Inr)
      moreover have "c = unit_of (CHR '','') \<and> length r' < length s" using c lt by simp
      ultimately have "length r \<le> length (skip_ws r')"
        using "2.IH"(2)[OF v[THEN sym, THEN sym] refl sk False] by blast
      with length_skip_ws[of r'] lt show ?thesis by simp
    qed
  qed
next
  case (3 s)
  show ?case
  proof (intro allI impI)
    fix ms r assume a: "members s = Inr (ms, r)"
    then obtain q t where s: "s = q # t" and q: "q = dq"
      by (subst (asm) members.simps) (auto split: list.splits if_splits)
    from a s q obtain k r1 where k: "chars t = Inr (k, r1)"
      by (subst (asm) members.simps) (auto split: sum.splits)
    from a s q k obtain c r2 where sk1: "skip_ws r1 = c # r2"
      by (subst (asm) members.simps) (auto split: list.splits)
    from a s q k sk1 have c: "c = unit_of (CHR '':'') \<and> length r2 < length s"
      by (subst (asm) members.simps) (auto split: if_splits)
    from a s q k sk1 c obtain v r3 where v: "val (skip_ws r2) = Inr (v, r3)"
      by (subst (asm) members.simps) (auto split: sum.splits)
    have nq: "\<not> q \<noteq> dq" using q by simp
    have le3: "length r3 \<le> length (skip_ws r2)"
      using "3.IH"(1)[OF s nq k refl sk1 c] v by blast
    from a s q k sk1 c v obtain c' r4 where sk3: "skip_ws r3 = c' # r4"
      by (subst (asm) members.simps) (auto split: list.splits)
    have lt4: "length r4 < length s"
      using skip_ws_Cons_le[OF sk3] le3 length_skip_ws[of r2] c by simp
    show "length r \<le> length s"
    proof (cases "c' = unit_of (CHR ''}'')")
      case True
      with a s q k sk1 c v sk3 have "r = r4" by (subst (asm) members.simps) simp
      with lt4 show ?thesis by simp
    next
      case False
      with a s q k sk1 c v sk3 have c': "c' = unit_of (CHR '','')"
        by (subst (asm) members.simps) (auto split: if_splits)
      with a s q k sk1 c v sk3 lt4 False obtain ws where "members (skip_ws r4) = Inr (ws, r)"
        by (subst (asm) members.simps) (auto dest!: fmap_Inr)
      moreover have "c' = unit_of (CHR '','') \<and> length r4 < length s" using c' lt4 by simp
      ultimately have "length r \<le> length (skip_ws r4)"
        using "3.IH"(2)[OF s nq k refl sk1 c v[THEN sym, THEN sym] refl sk3 False] by blast
      with length_skip_ws[of r4] lt4 show ?thesis by simp
    qed
  qed
qed

text \<open>
  Code units above 255: a surrogate pair is copied, a surrogate on its own is written as
  an escape, and both are read back.
\<close>

lemma quote_surrogates:
  "quote [0xD83D, 0xDE00] = [dq, 0xD83D, 0xDE00, dq]"
  "quote [0xDE00, 0x4E2D] = dq # bs # str ''ude00'' @ [0x4E2D, dq]"
  by (simp_all add: quote_def is_high_def is_low_def unicode_escape_def hex_digit_def
      escape_def unit_of_def)

lemma parse_surrogates:
  "JSON_parse (dq # bs # str ''ude00'' @ [0x4E2D, dq]) = Inr (JString [0xDE00, 0x4E2D])"
  "JSON_parse [dq, 0xD83D, 0xDE00, dq] = Inr (JString [0xD83D, 0xDE00])"
  using parse_stringify[of "JString [0xDE00, 0x4E2D]"] parse_stringify[of "JString [0xD83D, 0xDE00]"]
  by (simp_all only: stringify.simps quote_surrogates number_free.simps)

declare str_simps [simp del]
declare str_eq_iff [simp] str_eq_Nil [simp]

section \<open>The workspace: lemmas\<close>

lemma activeFile_Cons:
  assumes "files s = f0 # fs"
  shows "\<exists>f. activeFile s = Some f \<and> f \<in> set (files s)
           \<and> (activeFileId s \<notin> set (ids s) \<longrightarrow> f = f0)
           \<and> (activeFileId s \<in> set (ids s) \<longrightarrow> file_id f = activeFileId s)"
proof (cases "find (\<lambda>f. file_id f = activeFileId s) (files s)")
  case None
  then have "activeFileId s \<notin> set (ids s)"
    by (auto simp: find_None_iff)
  with None assms show ?thesis
    by (simp add: activeFile_def)
next
  case (Some f)
  then have f: "f \<in> set (files s)" "file_id f = activeFileId s"
    by (auto simp: find_Some_iff)
  then have "activeFileId s \<in> set (ids s)"
    by (metis image_eqI list.set_map)
  with Some f show ?thesis
    by (simp add: activeFile_def)
qed

lemma activeFile_same:
  "files s' = files s \<Longrightarrow> activeFileId s' = activeFileId s \<Longrightarrow> activeFile s' = activeFile s"
  unfolding activeFile_def by (simp only:)

lemma activeFile_nonempty: "files s \<noteq> [] \<Longrightarrow> \<exists>f. activeFile s = Some f"
  by (cases "files s") (auto simp: activeFile_def split: option.splits)

lemma seed_active: "activeFile seed = Some (hd INITIAL_FILES)"
  by (simp add: seed_def INITIAL_FILES_def activeFile_def)

lemma seed_facts: "\<not> isRunning seed" "files seed \<noteq> []" "file_name (hd INITIAL_FILES) = (str ''main.cpp'')"
  by (simp_all add: seed_def INITIAL_FILES_def)

lemma files_addLine: "files (addLine c t now s) = files s"
  by (simp add: addLine_def)

lemma files_seed: "files seed = INITIAL_FILES"
  by (simp add: seed_def)

lemma mount_seed: "mount INITIAL_FILES = Inr sys0"
  by (simp add: mount_def initial_def sync_def seed_def INITIAL_FILES_def)

lemma distinct_seed: "distinct (map file_id INITIAL_FILES)"
  by (simp add: INITIAL_FILES_def)

lemma ext_of_samples: "ext_of ascii_lower (str ''utils.c'') = Some (str ''c'')" "ext_of ascii_lower (str ''a.c'') = Some (str ''c'')"
  "ext_of ascii_lower (str ''b.c'') = Some (str ''c'')"
  by (simp_all add: ext_of_def pop_def ascii_lower_def str_simps)

lemma complete_run:
  assumes "\<not> isRunning (app w)" and "activeFile (app w) = Some f"
  shows "exec lower (run_events t0 t1 t2 t3 t4 t5) w =
           Inr (w\<lparr>app := (app w)\<lparr>terminalLines := run_lines (file_name f) t0 t1 t2 t3 t4 t5,
                                  isRunning := False\<rparr>,
                  pending := None\<rparr>)"
  using assms
  by (simp add: run_events_def runCode_def resume_compile_def resume_link_def resume_exec_def
      addLine_def run_lines_def)

lemma terminalLines_createNewFile: "terminalLines (snd (createNewFile lower a r s)) = terminalLines s"
  by (simp add: createNewFile_def appendFile_def Let_def split: option.splits)

lemma terminalLines_deleteFile: "deleteFile i ok s = Inr s' \<Longrightarrow> terminalLines s' = terminalLines s"
  by (auto simp: deleteFile_def Let_def split: if_splits list.splits)

lemma terminalLines_handleEditorChange: "terminalLines (handleEditorChange v s) = terminalLines s"
  by (simp add: handleEditorChange_def split: option.splits)

lemma step_append_only:
  assumes "step lower e w = Inr w'" and "(\<forall>t. e \<noteq> Run t) \<or> isRunning (app w)"
  shows "prefix (terminalLines (app w)) (terminalLines (app w'))"
proof (cases e)
  case (Run t)
  with assms show ?thesis by (auto simp: runCode_def)
next
  case (CompileTimer t)
  with assms(1) show ?thesis
    by (auto simp: resume_compile_def addLine_def split: option.splits continuation.splits)
next
  case (LinkTimer t)
  with assms(1) show ?thesis
    by (auto simp: resume_link_def addLine_def split: option.splits continuation.splits)
next
  case (ExecTimer t1 t2 t3)
  with assms(1) show ?thesis
    by (auto simp: resume_exec_def addLine_def split: option.splits continuation.splits)
next
  case (Save t)
  with assms(1) show ?thesis
    by (auto simp: saveFiles_def sync_def addLine_def)
next
  case (Create a r)
  with assms(1) show ?thesis
    by (auto simp: Let_def sync_def terminalLines_createNewFile split: if_splits)
next
  case (Delete i ok)
  with assms(1) show ?thesis
    by (auto simp: sync_def terminalLines_deleteFile split: sum.splits if_splits)
next
  case (Select i)
  with assms(1) show ?thesis
    by (auto simp: setActiveFileId_def split: if_splits)
next
  case (Edit v)
  with assms(1) show ?thesis
    by (auto simp: sync_def terminalLines_handleEditorChange split: if_splits)
qed

lemma exec_append: "exec lower (es @ es') w = (case exec lower es w of Inl x \<Rightarrow> Inl x | Inr w' \<Rightarrow> exec lower es' w')"
  by (induction es arbitrary: w) (auto split: sum.splits)

lemma createNewFile_cases:
  "snd (createNewFile lower a rid s) = s
   \<or> (\<exists>name lang. snd (createNewFile lower a rid s) = appendFile (newFile rid name lang) s)"
  by (auto simp: createNewFile_def Let_def split: option.splits)

lemma createNewFile_inv:
  assumes "workspace_inv s"
    and "rid \<notin> set (ids s) \<or> files (snd (createNewFile lower a rid s)) = files s"
  shows "workspace_inv (snd (createNewFile lower a rid s))"
proof -
  consider "snd (createNewFile lower a rid s) = s"
    | name lang where "snd (createNewFile lower a rid s) = appendFile (newFile rid name lang) s"
    using createNewFile_cases by blast
  then show ?thesis
  proof cases
    case 1
    with assms(1) show ?thesis by simp
  next
    case 2
    then have "files (snd (createNewFile lower a rid s)) \<noteq> files s"
      by (simp add: appendFile_def)
    with assms(2) have "rid \<notin> set (ids s)" by blast
    with assms(1) 2 show ?thesis
      by (simp add: workspace_inv_def appendFile_def newFile_def)
  qed
qed

lemma filter_distinct_nonempty:
  assumes "distinct (map file_id fs)" and "1 < length fs"
  shows "filter (\<lambda>f. file_id f \<noteq> i) fs \<noteq> []"
proof -
  obtain f g r where fs: "fs = f # g # r"
    using assms(2) by (cases fs; cases "tl fs") auto
  with assms(1) have "file_id f \<noteq> file_id g" by auto
  then have "file_id f \<noteq> i \<or> file_id g \<noteq> i" by auto
  then show ?thesis by (auto simp: fs)
qed

lemma deleteFile_inv:
  assumes "workspace_inv s"
  shows "\<exists>s'. deleteFile i ok s = Inr s' \<and> workspace_inv s'
           \<and> (ok \<and> 1 < length (files s) \<and> activeFileId s = i \<longrightarrow>
                (\<exists>f r. filter (\<lambda>f. file_id f \<noteq> i) (files s) = f # r \<and> files s' = f # r
                   \<and> activeFileId s' = file_id f))"
proof (cases "length (files s) \<le> 1 \<or> \<not> ok")
  case True
  with assms show ?thesis by (auto simp: deleteFile_def)
next
  case False
  let ?r = "filter (\<lambda>f. file_id f \<noteq> i) (files s)"
  from False assms have "?r \<noteq> []"
    by (intro filter_distinct_nonempty) (auto simp: workspace_inv_def)
  then obtain f r where r: "?r = f # r" by (cases ?r) auto
  have d: "distinct (map file_id ?r)"
    using assms by (simp add: workspace_inv_def distinct_map_filter)
  show ?thesis
  proof (cases "activeFileId s = i")
    case True
    with False r have "deleteFile i ok s = Inr (s\<lparr>files := ?r, activeFileId := file_id f\<rparr>)"
      by (simp add: deleteFile_def Let_def)
    moreover have "workspace_inv (s\<lparr>files := ?r, activeFileId := file_id f\<rparr>)"
      using d r by (simp add: workspace_inv_def)
    ultimately show ?thesis using r by simp
  next
    case neq: False
    with False have "deleteFile i ok s = Inr (s\<lparr>files := ?r\<rparr>)"
      by (simp add: deleteFile_def Let_def)
    moreover have "activeFileId s \<in> set (map file_id ?r)"
      using assms neq by (auto simp: workspace_inv_def)
    then have "workspace_inv (s\<lparr>files := ?r\<rparr>)"
      using d r by (simp add: workspace_inv_def)
    ultimately show ?thesis using neq by simp
  qed
qed

lemma ids_handleEditorChange: "ids (handleEditorChange v s) = ids s"
proof -
  have "(file_id \<circ> (\<lambda>f. if file_id f = a then f\<lparr>file_content := x\<rparr> else f)) = file_id" for a x
    by (rule ext) simp
  then show ?thesis
    by (cases v) (simp_all add: handleEditorChange_def)
qed

lemma handleEditorChange_inv: "workspace_inv s \<Longrightarrow> workspace_inv (handleEditorChange v s)"
proof -
  assume a: "workspace_inv s"
  have "files (handleEditorChange v s) \<noteq> []"
    using a ids_handleEditorChange[of v s] by (auto simp: workspace_inv_def simp del: map_eq_conv)
  moreover have "activeFileId (handleEditorChange v s) = activeFileId s"
    by (cases v) (simp_all add: handleEditorChange_def)
  ultimately show ?thesis
    using a by (simp add: workspace_inv_def ids_handleEditorChange)
qed

lemma step_inv:
  assumes "workspace_inv (app w)" and "fresh lower [e] w"
  shows "\<exists>w'. step lower e w = Inr w' \<and> workspace_inv (app w')"
proof (cases e)
  case (Run t)
  from assms(1) obtain f where "activeFile (app w) = Some f"
    using activeFile_nonempty by (auto simp: workspace_inv_def)
  with assms(1) Run show ?thesis
    by (auto simp: runCode_def addLine_def workspace_inv_def)
next
  case (CompileTimer t)
  with assms(1) show ?thesis
    by (auto simp: resume_compile_def addLine_def workspace_inv_def
        split: option.splits continuation.splits)
next
  case (LinkTimer t)
  with assms(1) show ?thesis
    by (auto simp: resume_link_def addLine_def workspace_inv_def
        split: option.splits continuation.splits)
next
  case (ExecTimer t1 t2 t3)
  with assms(1) show ?thesis
    by (auto simp: resume_exec_def addLine_def workspace_inv_def
        split: option.splits continuation.splits)
next
  case (Save t)
  with assms(1) show ?thesis
    by (auto simp: saveFiles_def sync_def addLine_def workspace_inv_def)
next
  case (Create a r)
  with assms have "workspace_inv (snd (createNewFile lower a r (app w)))"
    by (intro createNewFile_inv) auto
  with Create assms(1) show ?thesis
    by (auto simp: Let_def sync_def)
next
  case (Delete i ok)
  obtain s' where "deleteFile i ok (app w) = Inr s'" "workspace_inv s'"
    using deleteFile_inv[OF assms(1)] by blast
  with Delete assms(1) show ?thesis
    by (auto simp: sync_def)
next
  case (Select i)
  with assms(1) show ?thesis
    by (auto simp: setActiveFileId_def workspace_inv_def)
next
  case (Edit v)
  with assms(1) show ?thesis
    by (auto simp: sync_def handleEditorChange_inv)
qed

lemma exec_inv:
  "workspace_inv (app w) \<Longrightarrow> fresh lower es w \<Longrightarrow> \<exists>w'. exec lower es w = Inr w' \<and> workspace_inv (app w')"
proof (induction es arbitrary: w)
  case Nil
  then show ?case by simp
next
  case (Cons e es)
  from Cons.prems have "fresh lower [e] w" by (auto split: event.splits sum.splits)
  then obtain w1 where w1: "step lower e w = Inr w1" "workspace_inv (app w1)"
    using step_inv Cons.prems(1) by blast
  with Cons.prems(2) have "fresh lower es w1" by simp
  from Cons.IH[OF w1(2) this] w1(1) show ?case by simp
qed

lemma mount_inv:
  assumes "mount fs = Inr w0" and "distinct (map file_id fs)"
  shows "workspace_inv (app w0)" "\<not> isRunning (app w0)" "pending w0 = None"
  using assms
  by (auto simp: mount_def initial_def sync_def workspace_inv_def split: list.splits)

lemma isRunning_createNewFile: "isRunning (snd (createNewFile lower a r s)) = isRunning s"
  by (simp add: createNewFile_def appendFile_def Let_def split: option.splits)

lemma isRunning_deleteFile: "deleteFile i ok s = Inr s' \<Longrightarrow> isRunning s' = isRunning s"
  by (auto simp: deleteFile_def Let_def split: if_splits list.splits)

lemma isRunning_handleEditorChange: "isRunning (handleEditorChange v s) = isRunning s"
  by (simp add: handleEditorChange_def split: option.splits)

lemma step_running:
  assumes "isRunning (app w) \<longleftrightarrow> pending w \<noteq> None" and "step lower e w = Inr w'"
  shows "isRunning (app w') \<longleftrightarrow> pending w' \<noteq> None"
proof (cases e)
  case (Run t)
  with assms show ?thesis
    by (auto simp: runCode_def addLine_def split: if_splits option.splits)
next
  case (CompileTimer t)
  with assms show ?thesis
    by (auto simp: resume_compile_def addLine_def split: option.splits continuation.splits)
next
  case (LinkTimer t)
  with assms show ?thesis
    by (auto simp: resume_link_def addLine_def split: option.splits continuation.splits)
next
  case (ExecTimer t1 t2 t3)
  with assms show ?thesis
    by (auto simp: resume_exec_def addLine_def split: option.splits continuation.splits)
next
  case (Save t)
  with assms show ?thesis
    by (auto simp: saveFiles_def sync_def addLine_def)
next
  case (Create a r)
  with assms show ?thesis
    by (auto simp: Let_def sync_def isRunning_createNewFile split: if_splits)
next
  case (Delete i ok)
  with assms show ?thesis
    by (auto simp: sync_def isRunning_deleteFile split: sum.splits if_splits)
next
  case (Select i)
  with assms show ?thesis
    by (auto simp: setActiveFileId_def split: if_splits)
next
  case (Edit v)
  with assms show ?thesis
    by (auto simp: sync_def isRunning_handleEditorChange split: if_splits)
qed

lemma exec_running:
  "(isRunning (app w) \<longleftrightarrow> pending w \<noteq> None) \<Longrightarrow> exec lower es w = Inr w' \<Longrightarrow>
     (isRunning (app w') \<longleftrightarrow> pending w' \<noteq> None)"
proof (induction es arbitrary: w)
  case Nil
  then show ?case by simp
next
  case (Cons e es)
  then obtain w1 where w1: "step lower e w = Inr w1" "exec lower es w1 = Inr w'"
    by (auto split: sum.splits)
  from Cons.IH[OF step_running[OF Cons.prems(1) w1(1)] w1(2)] show ?case .
qed

lemma run_flags:
  assumes "\<not> isRunning (app w)" and "activeFile (app w) = Some f"
  shows "\<exists>w1 w2 w3 w4.
           step lower (Run t0) w = Inr w1 \<and> isRunning (app w1)
         \<and> step lower (CompileTimer t1) w1 = Inr w2 \<and> isRunning (app w2)
         \<and> step lower (LinkTimer t2) w2 = Inr w3 \<and> isRunning (app w3)
         \<and> step lower (ExecTimer t3 t4 t5) w3 = Inr w4 \<and> \<not> isRunning (app w4)"
  using assms
  by (simp add: runCode_def resume_compile_def resume_link_def resume_exec_def addLine_def)

lemma number_free_files: "number_free (js_of_files fs)"
  by (simp add: js_of_files_def js_of_file_def list_all_iff)

lemma persist_nonempty: "persist fs \<noteq> []"
  by (simp add: persist_def js_of_files_def)

lemma language_name_inj: "language_name a = language_name b \<Longrightarrow> a = b"
  by (cases a; cases b) (simp_all add: language_name_def)

lemma js_of_file_inj: "js_of_file f = js_of_file g \<Longrightarrow> f = g"
  by (cases f; cases g) (auto simp: js_of_file_def dest: language_name_inj)

lemma js_of_files_inj: "(js_of_files fs = js_of_files fs') = (fs = fs')"
proof -
  have "inj js_of_file" by (rule injI) (rule js_of_file_inj)
  then show ?thesis by (simp add: js_of_files_def inj_map_eq_map)
qed

text \<open>
  The scenario of the specification: from the two built-in files, \<^verbatim>\<open>utils.c\<close> is created,
  \<^verbatim>\<open>header.h\<close> and \<^verbatim>\<open>utils.c\<close> are deleted, and the deletion of \<^verbatim>\<open>main.cpp\<close>, then the only
  file, is refused.
\<close>

lemma create_delete_scenario:
  "map_sum id (\<lambda>w. (map file_name (files (app w)), activeFileId (app w)))
     (exec ascii_lower [Create (Some (str ''utils.c'')) (str ''k3j9x2m1a''), Delete (str ''2'') True,
            Delete (str ''k3j9x2m1a'') True, Delete (str ''1'') True] sys0)
   = Inr ([(str ''main.cpp'')], (str ''1''))"
  by (simp add: seed_def INITIAL_FILES_def createNewFile_def ext_of_samples Let_def
      appendFile_def newFile_def deleteFile_def sync_def)

lemma pending_sync: "pending (sync w) = pending w" "app (sync w) = app w"
  by (simp_all add: sync_def)

lemma quiet_step:
  assumes "quiet e" and "isRunning (app w)" and "step lower e w = Inr w'"
  shows "terminalLines (app w') = terminalLines (app w) \<and> isRunning (app w')
           \<and> pending w' = pending w"
proof (cases e)
  case (Run t)
  with assms show ?thesis by (auto simp: runCode_def)
next
  case (Create a r)
  with assms show ?thesis
    by (auto simp: Let_def pending_sync terminalLines_createNewFile isRunning_createNewFile
        split: if_splits)
next
  case (Delete i ok)
  with assms show ?thesis
    by (auto simp: pending_sync terminalLines_deleteFile isRunning_deleteFile
        split: sum.splits if_splits)
next
  case (Select i)
  with assms show ?thesis
    by (auto simp: setActiveFileId_def split: if_splits)
next
  case (Edit v)
  with assms show ?thesis
    by (auto simp: pending_sync terminalLines_handleEditorChange isRunning_handleEditorChange
        split: if_splits)
qed (use assms in \<open>simp_all add: quiet_def\<close>)

lemma quiet_exec:
  "list_all quiet es \<Longrightarrow> isRunning (app w) \<Longrightarrow> exec lower es w = Inr w' \<Longrightarrow>
     terminalLines (app w') = terminalLines (app w) \<and> isRunning (app w') \<and> pending w' = pending w"
proof (induction es arbitrary: w)
  case Nil
  then show ?case by simp
next
  case (Cons e es)
  then obtain w1 where w1: "step lower e w = Inr w1" "exec lower es w1 = Inr w'"
    by (auto split: sum.splits)
  from Cons.prems have q: "quiet e" "list_all quiet es" by simp_all
  from quiet_step[OF q(1) Cons.prems(2) w1(1)]
  have s: "terminalLines (app w1) = terminalLines (app w)" "isRunning (app w1)"
    "pending w1 = pending w" by simp_all
  from Cons.IH[OF q(2) s(2) w1(2)] s show ?case by simp
qed

lemma exec_Cons_Inr:
  "exec lower (e # es) w = Inr w' \<Longrightarrow> \<exists>w1. step lower e w = Inr w1 \<and> exec lower es w1 = Inr w'"
  by (auto split: sum.splits)

lemma exec_append_Inr:
  "exec lower (es @ es') w = Inr w' \<Longrightarrow> \<exists>w1. exec lower es w = Inr w1 \<and> exec lower es' w1 = Inr w'"
  by (auto simp: exec_append split: sum.splits)

lemma quiet_run:
  assumes nr: "\<not> isRunning (app w)" and f: "activeFile (app w) = Some f"
    and q: "list_all quiet ea" "list_all quiet eb" "list_all quiet ec"
    and e: "exec lower (Run t0 # ea @ CompileTimer t1 # eb @ LinkTimer t2 # ec @ [ExecTimer t3 t4 t5]) w
              = Inr w'"
  shows "terminalLines (app w') = run_lines (file_name f) t0 t1 t2 t3 t4 t5"
proof -
  from exec_Cons_Inr[OF e] obtain w1 where
    1: "step lower (Run t0) w = Inr w1"
    and r1: "exec lower (ea @ CompileTimer t1 # eb @ LinkTimer t2 # ec @ [ExecTimer t3 t4 t5]) w1 = Inr w'"
    by blast
  from 1 nr f have s1: "terminalLines (app w1) = take 1 (run_lines (file_name f) t0 t1 t2 t3 t4 t5)"
    "isRunning (app w1)" "pending w1 = Some (Compile (file_name f))"
    by (auto simp: runCode_def addLine_def run_lines_def)
  from exec_append_Inr[OF r1] obtain w1' where
    a: "exec lower ea w1 = Inr w1'"
    and r2: "exec lower (CompileTimer t1 # eb @ LinkTimer t2 # ec @ [ExecTimer t3 t4 t5]) w1' = Inr w'"
    by blast
  from quiet_exec[OF q(1) s1(2) a] s1
  have s1': "terminalLines (app w1') = take 1 (run_lines (file_name f) t0 t1 t2 t3 t4 t5)"
    "isRunning (app w1')" "pending w1' = Some (Compile (file_name f))" by simp_all
  from exec_Cons_Inr[OF r2] obtain w2 where
    2: "step lower (CompileTimer t1) w1' = Inr w2"
    and r3: "exec lower (eb @ LinkTimer t2 # ec @ [ExecTimer t3 t4 t5]) w2 = Inr w'"
    by blast
  from 2 s1' have s2: "terminalLines (app w2) = take 2 (run_lines (file_name f) t0 t1 t2 t3 t4 t5)"
    "isRunning (app w2)" "pending w2 = Some Link"
    by (auto simp: resume_compile_def addLine_def run_lines_def)
  from exec_append_Inr[OF r3] obtain w2' where
    b: "exec lower eb w2 = Inr w2'"
    and r4: "exec lower (LinkTimer t2 # ec @ [ExecTimer t3 t4 t5]) w2' = Inr w'"
    by blast
  from quiet_exec[OF q(2) s2(2) b] s2
  have s2': "terminalLines (app w2') = take 2 (run_lines (file_name f) t0 t1 t2 t3 t4 t5)"
    "isRunning (app w2')" "pending w2' = Some Link" by simp_all
  from exec_Cons_Inr[OF r4] obtain w3 where
    3: "step lower (LinkTimer t2) w2' = Inr w3"
    and r5: "exec lower (ec @ [ExecTimer t3 t4 t5]) w3 = Inr w'"
    by blast
  from 3 s2' have s3: "terminalLines (app w3) = take 3 (run_lines (file_name f) t0 t1 t2 t3 t4 t5)"
    "isRunning (app w3)" "pending w3 = Some Exec"
    by (auto simp: resume_link_def addLine_def run_lines_def)
  from exec_append_Inr[OF r5] obtain w3' where
    c: "exec lower ec w3 = Inr w3'"
    and r6: "exec lower [ExecTimer t3 t4 t5] w3' = Inr w'"
    by blast
  from quiet_exec[OF q(3) s3(2) c] s3
  have s3': "terminalLines (app w3') = take 3 (run_lines (file_name f) t0 t1 t2 t3 t4 t5)"
    "pending w3' = Some Exec" by simp_all
  from r6 s3' show ?thesis
    by (auto simp: resume_exec_def addLine_def run_lines_def)
qed

section \<open>The claims\<close>

subsection \<open>C1: the log of a simulation\<close>

text \<open>
  Claim C1, as the code has it. In every state in which no simulation is running and the
  collection is not empty, a complete simulation on the active file, with no other handler
  writing to the console meanwhile, leaves exactly six entries in the log (not five): the
  first is a \<open>System\<close> line that contains the name of the active file, the last is the
  \<open>System\<close> line that reports exit code 0.
\<close>

theorem runCode_log:
  assumes "\<not> isRunning (app w)" and "files (app w) \<noteq> []"
  shows "\<exists>f w'. activeFile (app w) = Some f
           \<and> exec lower (run_events t0 t1 t2 t3 t4 t5) w = Inr w'
           \<and> terminalLines (app w') = run_lines (file_name f) t0 t1 t2 t3 t4 t5
           \<and> length (terminalLines (app w')) = 6
           \<and> line_type (hd (terminalLines (app w'))) = System
           \<and> sublist (file_name f) (line_content (hd (terminalLines (app w'))))
           \<and> line_type (last (terminalLines (app w'))) = System
           \<and> line_content (last (terminalLines (app w'))) = (str ''Process finished with exit code 0'')"
proof -
  obtain f where f: "activeFile (app w) = Some f"
    using activeFile_nonempty[OF assms(2)] by blast
  let ?w' = "w\<lparr>app := (app w)\<lparr>terminalLines := run_lines (file_name f) t0 t1 t2 t3 t4 t5,
                                isRunning := False\<rparr>,
                pending := None\<rparr>"
  have e: "exec lower (run_events t0 t1 t2 t3 t4 t5) w = Inr ?w'"
    by (rule complete_run[OF assms(1) f])
  have l: "terminalLines (app ?w') = run_lines (file_name f) t0 t1 t2 t3 t4 t5"
    by simp
  have s: "sublist (file_name f) ((str ''$ g++ '') @ file_name f @ (str '' -o output''))"
    by (rule sublist_appendI)
  have p: "length (run_lines (file_name f) t0 t1 t2 t3 t4 t5) = 6"
    "line_type (hd (run_lines (file_name f) t0 t1 t2 t3 t4 t5)) = System"
    "line_content (hd (run_lines (file_name f) t0 t1 t2 t3 t4 t5)) = (str ''$ g++ '') @ file_name f @ (str '' -o output'')"
    "line_type (last (run_lines (file_name f) t0 t1 t2 t3 t4 t5)) = System"
    "line_content (last (run_lines (file_name f) t0 t1 t2 t3 t4 t5)) = (str ''Process finished with exit code 0'')"
    by (simp_all add: run_lines_def)
  show ?thesis
    apply (rule exI[of _ f])
    apply (rule exI[of _ ?w'])
    apply (simp only: l p)
    apply (simp only: f e s simp_thms)
    done
qed

text \<open>The theorem at the built-in workspace.\<close>

theorem runCode_log_witness:
  "\<not> isRunning (app sys0) \<and> files (app sys0) \<noteq> []
   \<and> (\<exists>w'. exec ascii_lower (run_events 0 600 1000 1500 1501 1502) sys0 = Inr w'
          \<and> terminalLines (app w') = run_lines (str ''main.cpp'') 0 600 1000 1500 1501 1502
          \<and> length (terminalLines (app w')) = 6)"
  using runCode_log[of sys0 ascii_lower 0 600 1000 1500 1501 1502]
  by (auto simp: seed_facts seed_active)

text \<open>The claim as stated asks for five entries; the built-in workspace gets six.\<close>

theorem runCode_five_lines_counterexample:
  "\<not> isRunning (app sys0)
   \<and> map_sum id (\<lambda>w. length (terminalLines (app w)))
        (exec ascii_lower [Run 0, CompileTimer 600, LinkTimer 1000, ExecTimer 1500 1501 1502] sys0) = Inr 6"
proof -
  have "exec ascii_lower (run_events 0 600 1000 1500 1501 1502) sys0 =
          Inr (sys0\<lparr>app := (app sys0)\<lparr>terminalLines := run_lines (str ''main.cpp'') 0 600 1000 1500 1501 1502,
                                       isRunning := False\<rparr>,
                     pending := None\<rparr>)"
    using complete_run[of sys0 "hd INITIAL_FILES" ascii_lower 0 600 1000 1500 1501 1502]
    by (simp add: seed_facts seed_active)
  then show ?thesis
    by (simp add: run_events_def run_lines_def seed_facts)
qed

subsection \<open>C2: the collection is never empty\<close>

text \<open>
  Claim C2, as the code has it. From an initial workspace whose buffers have pairwise
  distinct ids, after every finite sequence of events (creations and deletions among
  them) in which each id drawn for a new buffer differs from the ids in the collection,
  no handler has thrown and the collection is not empty; and \<open>deleteFile\<close> on a collection
  of at most one buffer returns the state unchanged.
\<close>

theorem collection_never_empty:
  "(mount fs = Inr w0 \<and> distinct (map file_id fs) \<and> fresh lower es w0 \<longrightarrow>
      (\<exists>w. exec lower es w0 = Inr w \<and> files (app w) \<noteq> []))
   \<and> (length (files s) \<le> 1 \<longrightarrow> deleteFile i ok s = Inr s)"
proof (intro conjI impI)
  assume a: "mount fs = Inr w0 \<and> distinct (map file_id fs) \<and> fresh lower es w0"
  then have "workspace_inv (app w0)" using mount_inv(1) by blast
  with a obtain w where "exec lower es w0 = Inr w" "workspace_inv (app w)"
    using exec_inv by blast
  then show "\<exists>w. exec lower es w0 = Inr w \<and> files (app w) \<noteq> []"
    by (auto simp: workspace_inv_def)
next
  assume "length (files s) \<le> 1"
  then show "deleteFile i ok s = Inr s" by (simp add: deleteFile_def)
qed

text \<open>The theorem at the sequence of the specification's scenario.\<close>

theorem collection_never_empty_witness:
  "mount INITIAL_FILES = Inr sys0 \<and> distinct (map file_id INITIAL_FILES)
   \<and> fresh ascii_lower [Create (Some (str ''utils.c'')) (str ''k3j9x2m1a''), Delete (str ''2'') True,
            Delete (str ''k3j9x2m1a'') True, Delete (str ''1'') True] sys0
   \<and> (\<exists>w. exec ascii_lower [Create (Some (str ''utils.c'')) (str ''k3j9x2m1a''), Delete (str ''2'') True,
                 Delete (str ''k3j9x2m1a'') True, Delete (str ''1'') True] sys0 = Inr w
          \<and> files (app w) \<noteq> [])
   \<and> length (files (seed\<lparr>files := [hd INITIAL_FILES]\<rparr>)) \<le> 1
   \<and> deleteFile (str ''1'') True (seed\<lparr>files := [hd INITIAL_FILES]\<rparr>) = Inr (seed\<lparr>files := [hd INITIAL_FILES]\<rparr>)"
proof -
  let ?es = "[Create (Some (str ''utils.c'')) (str ''k3j9x2m1a''), Delete (str ''2'') True,
              Delete (str ''k3j9x2m1a'') True, Delete (str ''1'') True]"
  have f: "fresh ascii_lower ?es sys0"
    by (simp add: seed_def INITIAL_FILES_def createNewFile_def ext_of_samples Let_def
        appendFile_def newFile_def deleteFile_def sync_def)
  have l: "length (files (seed\<lparr>files := [hd INITIAL_FILES]\<rparr>)) \<le> 1" by simp
  show ?thesis
    using collection_never_empty[of INITIAL_FILES sys0 ascii_lower ?es "seed\<lparr>files := [hd INITIAL_FILES]\<rparr>" "(str ''1'')" True]
      mount_seed distinct_seed f l
    by simp
qed

text \<open>
  The claim as stated covers every sequence. When \<^verbatim>\<open>Math.random\<close> yields the same id for
  two new buffers and they are the last two, deleting one removes both: the filter that
  \<^verbatim>\<open>setFiles\<close> receives leaves nothing, and \<^verbatim>\<open>remaining[0].id\<close> throws.
\<close>

theorem collection_emptied_counterexample:
  "map_sum id (\<lambda>w. map file_id (files (app w)))
     (exec ascii_lower [Create (Some (str ''a.c'')) (str ''k3j9x2m1a''), Create (Some (str ''b.c'')) (str ''k3j9x2m1a''),
            Delete (str ''1'') True, Delete (str ''2'') True] sys0)
     = Inr [(str ''k3j9x2m1a''), (str ''k3j9x2m1a'')]
   \<and> filter (\<lambda>i. i \<noteq> (str ''k3j9x2m1a'')) [(str ''k3j9x2m1a''), (str ''k3j9x2m1a'')] = []
   \<and> exec ascii_lower [Create (Some (str ''a.c'')) (str ''k3j9x2m1a''), Create (Some (str ''b.c'')) (str ''k3j9x2m1a''),
           Delete (str ''1'') True, Delete (str ''2'') True, Delete (str ''k3j9x2m1a'') True] sys0
     = Inl TypeError"
  by (simp add: seed_def INITIAL_FILES_def createNewFile_def ext_of_samples Let_def
      appendFile_def newFile_def deleteFile_def sync_def)

subsection \<open>C3: the active pointer after a deletion\<close>

text \<open>
  Claim C3, as the code has it. In every state reached as in C2 (distinct ids at the start,
  no id drawn twice), \<open>deleteFile\<close> with any id and any answer returns a state whose active
  pointer is the id of a buffer of the resulting collection; and when the buffer that was
  deleted was the active one, the pointer is the id of the first buffer that remains.
\<close>

theorem deleteFile_active_pointer:
  "mount fs = Inr w0 \<and> distinct (map file_id fs) \<and> fresh lower es w0 \<and> exec lower es w0 = Inr w \<longrightarrow>
     (\<exists>s'. deleteFile i ok (app w) = Inr s'
        \<and> activeFileId s' \<in> set (ids s')
        \<and> (ok \<and> 1 < length (files (app w)) \<and> activeFileId (app w) = i \<longrightarrow>
             (\<exists>f r. filter (\<lambda>f. file_id f \<noteq> i) (files (app w)) = f # r
                \<and> files s' = f # r \<and> activeFileId s' = file_id f)))"
proof
  assume a: "mount fs = Inr w0 \<and> distinct (map file_id fs) \<and> fresh lower es w0 \<and> exec lower es w0 = Inr w"
  then have "workspace_inv (app w0)" using mount_inv(1) by blast
  with a have "workspace_inv (app w)"
    using exec_inv[of w0 lower es] by auto
  from deleteFile_inv[OF this, of i ok]
  show "\<exists>s'. deleteFile i ok (app w) = Inr s'
        \<and> activeFileId s' \<in> set (ids s')
        \<and> (ok \<and> 1 < length (files (app w)) \<and> activeFileId (app w) = i \<longrightarrow>
             (\<exists>f r. filter (\<lambda>f. file_id f \<noteq> i) (files (app w)) = f # r
                \<and> files s' = f # r \<and> activeFileId s' = file_id f))"
    by (auto simp: workspace_inv_def)
qed

text \<open>The theorem where the active file \<^verbatim>\<open>main.cpp\<close> is deleted out of three.\<close>

theorem deleteFile_active_pointer_witness:
  "mount INITIAL_FILES = Inr sys0 \<and> distinct (map file_id INITIAL_FILES)
   \<and> fresh ascii_lower [Create (Some (str ''utils.c'')) (str ''k3j9x2m1a''), Select (str ''1'')] sys0
   \<and> (\<exists>w. exec ascii_lower [Create (Some (str ''utils.c'')) (str ''k3j9x2m1a''), Select (str ''1'')] sys0 = Inr w
        \<and> activeFileId (app w) = (str ''1'') \<and> 1 < length (files (app w))
        \<and> (\<exists>s'. deleteFile (str ''1'') True (app w) = Inr s'
              \<and> map file_name (files s') = [(str ''header.h''), (str ''utils.c'')]
              \<and> activeFileId s' = (str ''2'')))"
proof -
  let ?es = "[Create (Some (str ''utils.c'')) (str ''k3j9x2m1a''), Select (str ''1'')]"
  let ?w = "sys0\<lparr>app := seed\<lparr>files := INITIAL_FILES @ [newFile (str ''k3j9x2m1a'') (str ''utils.c'') C],
                                activeFileId := (str ''1'')\<rparr>,
                 slot := Some (persist (INITIAL_FILES @ [newFile (str ''k3j9x2m1a'') (str ''utils.c'') C]))\<rparr>"
  have f: "fresh ascii_lower ?es sys0"
    by (simp add: seed_def INITIAL_FILES_def createNewFile_def ext_of_samples Let_def
        appendFile_def newFile_def sync_def)
  have e: "exec ascii_lower ?es sys0 = Inr ?w"
    by (simp add: seed_def INITIAL_FILES_def createNewFile_def ext_of_samples Let_def
        appendFile_def newFile_def sync_def setActiveFileId_def)
  have d: "deleteFile (str ''1'') True (app ?w) =
             Inr ((app ?w)\<lparr>files := tl INITIAL_FILES @ [newFile (str ''k3j9x2m1a'') (str ''utils.c'') C],
                           activeFileId := (str ''2'')\<rparr>)"
    by (simp add: seed_def INITIAL_FILES_def deleteFile_def newFile_def)
  show ?thesis
    using deleteFile_active_pointer[of INITIAL_FILES sys0 ascii_lower ?es ?w "(str ''1'')" True]
      mount_seed distinct_seed f e d
    by (simp add: seed_def INITIAL_FILES_def newFile_def)
qed

text \<open>
  The claim as stated covers every reachable state. With two buffers left that share the
  id of the active pointer, \<open>deleteFile\<close> throws and reassigns nothing.
\<close>

theorem deleteFile_throws_counterexample:
  "map_sum id (\<lambda>w. (map file_id (files (app w)), activeFileId (app w),
                    deleteFile (str ''k3j9x2m1a'') True (app w)))
     (exec ascii_lower [Create (Some (str ''a.c'')) (str ''k3j9x2m1a''), Create (Some (str ''b.c'')) (str ''k3j9x2m1a''),
            Delete (str ''1'') True, Delete (str ''2'') True] sys0)
   = Inr ([(str ''k3j9x2m1a''), (str ''k3j9x2m1a'')], (str ''k3j9x2m1a''), Inl TypeError)"
  by (simp add: seed_def INITIAL_FILES_def createNewFile_def ext_of_samples Let_def
      appendFile_def newFile_def deleteFile_def sync_def)

subsection \<open>C4: loading the storage slot\<close>

text \<open>
  Claim C4, as the code has it. When the slot is absent, or holds the empty string, the
  load returns the built-in collection of \<^verbatim>\<open>main.cpp\<close> and \<^verbatim>\<open>header.h\<close> and raises nothing.
  When the slot holds any other text, the load is \<^verbatim>\<open>JSON.parse\<close> of that text: its value
  when the text parses, its exception when it does not, with no fallback.
\<close>

theorem load_fallback:
  "load None = Inr (js_of_files INITIAL_FILES)
   \<and> load (Some []) = Inr (js_of_files INITIAL_FILES)
   \<and> map file_name INITIAL_FILES = [(str ''main.cpp''), (str ''header.h'')]
   \<and> (text \<noteq> [] \<longrightarrow> load (Some text) = JSON_parse text)"
  by (simp add: load_def INITIAL_FILES_def)

text \<open>The theorem at the text of an empty array.\<close>

theorem load_fallback_witness:
  "(str ''[]'') \<noteq> [] \<and> load (Some (str ''[]'')) = Inr (JArray [])"
  using load_fallback[of "(str ''[]'')"]
  by (simp add: JSON_parse_def skip_ws_def is_ws_def val.simps str_simps)

text \<open>
  The claim as stated promises the built-in collection for a malformed slot; a lone brace,
  a blob cut off in the middle and a text that is not JSON all raise \<open>SyntaxError\<close>.
\<close>

theorem load_malformed_counterexample:
  "load (Some (str ''{'')) = Inl SyntaxError
   \<and> load (Some ((str ''[{'') @ [dq] @ (str ''id'') @ [dq] @ (str '':'') @ [dq] @ (str ''1'') @ [dq])) = Inl SyntaxError
   \<and> load (Some (str ''not json'')) = Inl SyntaxError"
  by (simp add: load_def JSON_parse_def skip_ws_def is_ws_def val.simps elements.simps
      members.simps fmap_def number_def is_digit_def str_simps)

subsection \<open>C5: a file name with another extension\<close>

text \<open>
  Claim C5, as the code has it. For every non-empty file name whose extension (what follows
  its last dot, or the whole name without a dot, in lower case) is outside c, cpp, h, hpp,
  \<open>createNewFile\<close> alerts the user, throws nothing, and returns the state unchanged, so
  neither the collection nor the active pointer changes. For the empty name, and when the
  prompt is cancelled, the state is unchanged as well, but nothing is reported.
\<close>

theorem createNewFile_rejects:
  "(name \<noteq> [] \<and> ext_of lower name \<notin> {Some (str ''c''), Some (str ''cpp''), Some (str ''h''), Some (str ''hpp'')} \<longrightarrow>
      createNewFile lower (Some name) rid s = (Some (str ''Please use .c or .cpp extensions.''), s))
   \<and> createNewFile lower (Some []) rid s = (None, s)
   \<and> createNewFile lower None rid s = (None, s)"
  by (simp add: createNewFile_def Let_def)

text \<open>The theorem at \<^verbatim>\<open>notes.txt\<close>.\<close>

theorem createNewFile_rejects_witness:
  "(str ''notes.txt'') \<noteq> [] \<and> ext_of ascii_lower (str ''notes.txt'') = Some (str ''txt'')
   \<and> createNewFile ascii_lower (Some (str ''notes.txt'')) (str ''k3j9x2m1a'') seed
       = (Some (str ''Please use .c or .cpp extensions.''), seed)"
  using createNewFile_rejects[of "(str ''notes.txt'')" ascii_lower "(str ''k3j9x2m1a'')" seed]
  by (simp add: ext_of_def pop_def ascii_lower_def str_simps)

text \<open>
  The claim as stated covers every name with another extension. The empty name has the
  empty extension, and \<open>createNewFile\<close> returns without an alert.
\<close>

theorem createNewFile_empty_name_counterexample:
  "ext_of ascii_lower [] = Some [] \<and> fst (createNewFile ascii_lower (Some []) (str ''k3j9x2m1a'') seed) = None"
  by (simp add: ext_of_def pop_def ascii_lower_def createNewFile_def)

subsection \<open>C6: saving and loading\<close>

text \<open>
  Claim C6. For every collection of buffers, whose ids, names and contents are arbitrary
  strings of 16-bit code units (surrogates, paired or not, included), loading the text
  that \<open>persist\<close> writes returns the JavaScript value of that collection and raises
  nothing; and two collections have the same value only if they are equal, so every id,
  name, language and content, and the order of the buffers, come back as they were. The
  slot holds that text after the effect of lines 35 to 37 and after \<open>saveFiles\<close>.
\<close>

theorem persist_load_roundtrip:
  "load (Some (persist fs)) = Inr (js_of_files fs)
   \<and> (js_of_files fs = js_of_files fs') = (fs = fs')
   \<and> load (slot (sync w)) = Inr (js_of_files (files (app w)))
   \<and> load (slot (saveFiles now w)) = Inr (js_of_files (files (app w)))"
proof -
  have r: "load (Some (persist gs)) = Inr (js_of_files gs)" for gs
    using parse_stringify[OF number_free_files, of gs]
    by (simp add: load_def persist_nonempty) (simp add: persist_def)
  show ?thesis
    by (simp add: r js_of_files_inj sync_def saveFiles_def)
qed

subsection \<open>C7: the log across two simulations\<close>

text \<open>
  Claim C7, as the code has it. After two complete simulations in succession with nothing
  in between, the log is exactly the six lines of the second one, with the clock readings
  of the second one. More generally, from any state in which no simulation is under way
  (whatever the log holds, for instance the lines of earlier simulations), a complete
  simulation between whose four parts only quiet events happen (any events but a save)
  leaves exactly its own six lines. An accepted \<open>Run\<close> leaves the log with its one command line, whatever the log held
  before. Every other event, and a \<open>Run\<close> that is refused, leaves the log it found as a
  prefix of the new log: lines are appended, never changed or removed.
\<close>

theorem second_run_replaces_log:
  "(\<not> isRunning (app w) \<and> files (app w) \<noteq> [] \<longrightarrow>
      (\<exists>f w2. activeFile (app w) = Some f
         \<and> exec lower (run_events a0 a1 a2 a3 a4 a5 @ run_events b0 b1 b2 b3 b4 b5) w = Inr w2
         \<and> terminalLines (app w2) = run_lines (file_name f) b0 b1 b2 b3 b4 b5))
   \<and> (\<not> isRunning (app w) \<and> activeFile (app w) = Some g
        \<and> list_all quiet ea \<and> list_all quiet eb \<and> list_all quiet ec
        \<and> exec lower (Run b0 # ea @ CompileTimer b1 # eb @ LinkTimer b2 # ec @
                        [ExecTimer b3 b4 b5]) w = Inr w3 \<longrightarrow>
        terminalLines (app w3) = run_lines (file_name g) b0 b1 b2 b3 b4 b5)
   \<and> (\<not> isRunning (app w) \<and> step lower (Run t) w = Inr w' \<longrightarrow>
        (\<exists>f. activeFile (app w) = Some f
           \<and> terminalLines (app w') =
               [\<lparr>line_type = System,
                 line_content = str ''$ g++ '' @ file_name f @ str '' -o output'',
                 line_timestamp = t\<rparr>]))
   \<and> (step lower e w = Inr w' \<and> ((\<forall>t. e \<noteq> Run t) \<or> isRunning (app w)) \<longrightarrow>
        prefix (terminalLines (app w)) (terminalLines (app w')))"
proof (intro conjI impI)
  assume a: "\<not> isRunning (app w) \<and> files (app w) \<noteq> []"
  then obtain f where f: "activeFile (app w) = Some f"
    using activeFile_nonempty by blast
  let ?w1 = "w\<lparr>app := (app w)\<lparr>terminalLines := run_lines (file_name f) a0 a1 a2 a3 a4 a5,
                                isRunning := False\<rparr>,
                pending := None\<rparr>"
  have 1: "exec lower (run_events a0 a1 a2 a3 a4 a5) w = Inr ?w1"
    using complete_run a f by blast
  have f1: "activeFile (app ?w1) = Some f"
    using f activeFile_same[of "app ?w1" "app w"] by simp
  have 2: "exec lower (run_events b0 b1 b2 b3 b4 b5) ?w1 =
      Inr (?w1\<lparr>app := (app ?w1)\<lparr>terminalLines := run_lines (file_name f) b0 b1 b2 b3 b4 b5,
                                    isRunning := False\<rparr>,
                 pending := None\<rparr>)"
    by (rule complete_run[OF _ f1]) simp
  show "\<exists>f w2. activeFile (app w) = Some f
         \<and> exec lower (run_events a0 a1 a2 a3 a4 a5 @ run_events b0 b1 b2 b3 b4 b5) w = Inr w2
         \<and> terminalLines (app w2) = run_lines (file_name f) b0 b1 b2 b3 b4 b5"
    apply (rule exI[of _ f])
    apply (simp only: exec_append 1 sum.case 2)
    apply (simp add: f)
    done
next
  assume "\<not> isRunning (app w) \<and> activeFile (app w) = Some g
        \<and> list_all quiet ea \<and> list_all quiet eb \<and> list_all quiet ec
        \<and> exec lower (Run b0 # ea @ CompileTimer b1 # eb @ LinkTimer b2 # ec @
                        [ExecTimer b3 b4 b5]) w = Inr w3"
  then show "terminalLines (app w3) = run_lines (file_name g) b0 b1 b2 b3 b4 b5"
    using quiet_run by blast
next
  assume a: "\<not> isRunning (app w) \<and> step lower (Run t) w = Inr w'"
  then show "\<exists>f. activeFile (app w) = Some f
           \<and> terminalLines (app w') =
               [\<lparr>line_type = System,
                 line_content = str ''$ g++ '' @ file_name f @ str '' -o output'',
                 line_timestamp = t\<rparr>]"
    by (cases "activeFile (app w)") (auto simp: runCode_def addLine_def)
next
  assume "step lower e w = Inr w' \<and> ((\<forall>t. e \<noteq> Run t) \<or> isRunning (app w))"
  then show "prefix (terminalLines (app w)) (terminalLines (app w'))"
    using step_append_only by blast
qed

theorem second_run_replaces_log_witness:
  "\<not> isRunning (app sys0) \<and> files (app sys0) \<noteq> []
   \<and> (\<exists>w2. exec ascii_lower (run_events 0 600 1000 1500 1501 1502 @
                  run_events 2000 2600 3000 3500 3501 3502) sys0 = Inr w2
         \<and> terminalLines (app w2) = run_lines (str ''main.cpp'') 2000 2600 3000 3500 3501 3502)
   \<and> list_all quiet [Select (str ''2'')] \<and> list_all quiet [Run 2700] \<and> list_all quiet []
   \<and> (\<exists>w3. exec ascii_lower (Run 2000 # [Select (str ''2'')] @ CompileTimer 2600 # [Run 2700] @
                  LinkTimer 3000 # [] @ [ExecTimer 3500 3501 3502]) sys0 = Inr w3
         \<and> terminalLines (app w3) = run_lines (str ''main.cpp'') 2000 2600 3000 3500 3501 3502)
   \<and> (\<exists>w w'. step ascii_lower (Run 0) sys0 = Inr w \<and> isRunning (app w)
         \<and> step ascii_lower (Save 100) w = Inr w'
         \<and> prefix (terminalLines (app w)) (terminalLines (app w'))
         \<and> length (terminalLines (app w')) = 2)"
proof -
  have 1: "\<exists>w2. exec ascii_lower (run_events 0 600 1000 1500 1501 1502 @
                  run_events 2000 2600 3000 3500 3501 3502) sys0 = Inr w2
         \<and> terminalLines (app w2) = run_lines (str ''main.cpp'') 2000 2600 3000 3500 3501 3502"
    using second_run_replaces_log[of sys0 ascii_lower 0 600 1000 1500 1501 1502 2000 2600 3000 3500 3501 3502]
    by (auto simp: seed_facts seed_active)
  let ?es = "Run 2000 # [Select (str ''2'')] @ CompileTimer 2600 # [Run 2700] @
               LinkTimer 3000 # [] @ [ExecTimer 3500 3501 3502]"
  have q: "list_all quiet [Select (str ''2'')]" "list_all quiet [Run 2700]" "list_all quiet []"
    by (simp_all add: quiet_def)
  have "\<exists>w3. exec ascii_lower ?es sys0 = Inr w3"
    by (simp add: runCode_def seed_active seed_facts addLine_def setActiveFileId_def
        resume_compile_def resume_link_def resume_exec_def)
  then obtain w3 where e3: "exec ascii_lower ?es sys0 = Inr w3" by blast
  have l3: "terminalLines (app w3) = run_lines (str ''main.cpp'') 2000 2600 3000 3500 3501 3502"
    using second_run_replaces_log[of sys0 ascii_lower _ _ _ _ _ _ 2000 2600 3000 3500 3501 3502
        "hd INITIAL_FILES" "[Select (str ''2'')]" "[Run 2700]" "[]" w3]
      q e3 seed_active seed_facts by simp
  let ?w = "sys0\<lparr>app := addLine (str ''$ g++ '' @ str ''main.cpp'' @ str '' -o output'') System 0
                          (seed\<lparr>isRunning := True, terminalLines := []\<rparr>),
                pending := Some (Compile (str ''main.cpp''))\<rparr>"
  let ?w' = "saveFiles 100 ?w"
  have r: "step ascii_lower (Run 0) sys0 = Inr ?w" "isRunning (app ?w)"
    by (simp_all add: runCode_def seed_active seed_facts addLine_def)
  have s: "step ascii_lower (Save 100) ?w = Inr ?w'" by simp
  have p: "prefix (terminalLines (app ?w)) (terminalLines (app ?w'))"
    using second_run_replaces_log[where w = ?w and w' = ?w' and e = "Save 100" and lower = ascii_lower] s
    by simp
  have l: "length (terminalLines (app ?w')) = 2"
    by (simp add: saveFiles_def sync_def addLine_def)
  from 1 q e3 l3 r s p l show ?thesis
    by (simp only: seed_facts) (auto simp: seed_facts)
qed

text \<open>
  The claim without the proviso fails: \<open>saveFiles\<close> appends to the same log. With the
  save button clicked while the second simulation is under way, the log after the second
  simulation has seven lines, and its second line is not one of the simulation's.
\<close>

theorem save_during_run_counterexample:
  "map_sum id (\<lambda>w. (length (terminalLines (app w)),
                    map line_content (take 2 (terminalLines (app w)))))
     (exec ascii_lower
        (run_events 0 600 1000 1500 1501 1502 @
         [Run 2000, Save 2100, CompileTimer 2600, LinkTimer 3000, ExecTimer 3500 3501 3502])
        sys0)
   = Inr (7, [str ''$ g++ '' @ str ''main.cpp'' @ str '' -o output'',
              str ''System: Workspace saved to local storage.''])"
proof -
  have 1: "exec ascii_lower (run_events 0 600 1000 1500 1501 1502) sys0 =
          Inr (sys0\<lparr>app := (app sys0)\<lparr>terminalLines := run_lines (str ''main.cpp'') 0 600 1000 1500 1501 1502,
                                       isRunning := False\<rparr>,
                     pending := None\<rparr>)"
    using complete_run[of sys0 "hd INITIAL_FILES" ascii_lower 0 600 1000 1500 1501 1502]
    by (simp add: seed_facts seed_active)
  have a: "activeFile (seed\<lparr>terminalLines := run_lines (str ''main.cpp'') 0 600 1000 1500 1501 1502,
                              isRunning := False\<rparr>) = Some (hd INITIAL_FILES)"
    using activeFile_same[of "seed\<lparr>terminalLines := run_lines (str ''main.cpp'') 0 600 1000 1500 1501 1502,
                              isRunning := False\<rparr>" seed] seed_active by simp
  show ?thesis
    by (simp add: exec_append 1 a runCode_def seed_facts saveFiles_def sync_def addLine_def
        resume_compile_def resume_link_def resume_exec_def)
qed

subsection \<open>C8: selecting a file\<close>

text \<open>
  Claim C8, as the code has it. \<open>setActiveFileId\<close> raises nothing and leaves the
  collection, the log and the running flag as they are, but it stores any id it is given
  as the active pointer. For an id of no buffer the derived active file is then the first
  buffer of the collection. (The explorer only passes ids of listed buffers.)
\<close>

theorem setActiveFileId_stores:
  "activeFileId (setActiveFileId i s) = i
   \<and> files (setActiveFileId i s) = files s
   \<and> terminalLines (setActiveFileId i s) = terminalLines s
   \<and> isRunning (setActiveFileId i s) = isRunning s
   \<and> (i \<notin> set (ids s) \<longrightarrow>
        activeFile (setActiveFileId i s) = (case files s of [] \<Rightarrow> None | f # _ \<Rightarrow> Some f))"
proof -
  have "find (\<lambda>f. file_id f = i) (files s) = None" if "i \<notin> set (ids s)"
    using that by (auto simp: find_None_iff)
  then show ?thesis
    by (simp add: setActiveFileId_def activeFile_def)
qed

text \<open>The theorem at the built-in workspace and an id of no buffer.\<close>

theorem setActiveFileId_stores_witness:
  "(str ''9'') \<notin> set (ids seed)
   \<and> activeFileId (setActiveFileId (str ''9'') seed) = (str ''9'')
   \<and> activeFile (setActiveFileId (str ''9'') seed) = Some (hd INITIAL_FILES)"
  using setActiveFileId_stores[of "(str ''9'')" seed]
  by (simp add: seed_def INITIAL_FILES_def)

text \<open>
  The claim as stated calls this a no-op. With \<^verbatim>\<open>header.h\<close> active, an id of no buffer
  changes the state, and the derived active file moves to \<^verbatim>\<open>main.cpp\<close>.
\<close>

theorem setActiveFileId_absent_counterexample:
  "(str ''9'') \<notin> set (ids (seed\<lparr>activeFileId := (str ''2'')\<rparr>))
   \<and> setActiveFileId (str ''9'') (seed\<lparr>activeFileId := (str ''2'')\<rparr>) \<noteq> seed\<lparr>activeFileId := (str ''2'')\<rparr>
   \<and> activeFile (seed\<lparr>activeFileId := (str ''2'')\<rparr>) = Some (INITIAL_FILES ! 1)
   \<and> activeFile (setActiveFileId (str ''9'') (seed\<lparr>activeFileId := (str ''2'')\<rparr>)) = Some (INITIAL_FILES ! 0)"
  by (simp add: seed_def INITIAL_FILES_def setActiveFileId_def activeFile_def)

subsection \<open>C9: the running flag\<close>

text \<open>
  Claim C9. A \<open>Run\<close> while the flag is true returns the state as it is: no line is
  appended and nothing changes. A simulation that starts with the flag false sets it, the
  flag is true after the start and after the first and the second timer, and false after
  the third. Whatever else happens in between, in every state reached from an initial
  workspace the flag is true exactly when a simulation is under way.
\<close>

theorem running_flag:
  "(isRunning (app w) \<longrightarrow> step lower (Run t) w = Inr w)
   \<and> (\<not> isRunning (app w) \<and> files (app w) \<noteq> [] \<longrightarrow>
        (\<exists>w1 w2 w3 w4.
           step lower (Run t0) w = Inr w1 \<and> isRunning (app w1)
         \<and> step lower (CompileTimer t1) w1 = Inr w2 \<and> isRunning (app w2)
         \<and> step lower (LinkTimer t2) w2 = Inr w3 \<and> isRunning (app w3)
         \<and> step lower (ExecTimer t3 t4 t5) w3 = Inr w4 \<and> \<not> isRunning (app w4)))
   \<and> (mount fs = Inr w0 \<and> exec lower es w0 = Inr w \<longrightarrow> (isRunning (app w) \<longleftrightarrow> pending w \<noteq> None))"
proof (intro conjI impI)
  assume "isRunning (app w)"
  then show "step lower (Run t) w = Inr w" by (simp add: runCode_def)
next
  assume a: "\<not> isRunning (app w) \<and> files (app w) \<noteq> []"
  then obtain f where "activeFile (app w) = Some f" using activeFile_nonempty by blast
  with a show "\<exists>w1 w2 w3 w4.
           step lower (Run t0) w = Inr w1 \<and> isRunning (app w1)
         \<and> step lower (CompileTimer t1) w1 = Inr w2 \<and> isRunning (app w2)
         \<and> step lower (LinkTimer t2) w2 = Inr w3 \<and> isRunning (app w3)
         \<and> step lower (ExecTimer t3 t4 t5) w3 = Inr w4 \<and> \<not> isRunning (app w4)"
    using run_flags by blast
next
  assume a: "mount fs = Inr w0 \<and> exec lower es w0 = Inr w"
  then have "isRunning (app w0) \<longleftrightarrow> pending w0 \<noteq> None"
    by (auto simp: mount_def initial_def sync_def split: list.splits)
  with a show "isRunning (app w) \<longleftrightarrow> pending w \<noteq> None"
    using exec_running by blast
qed

text \<open>
  The theorem at the built-in workspace: a \<open>Run\<close> in the middle of a simulation, and a
  complete simulation.
\<close>

theorem running_flag_witness:
  "(\<exists>w. exec ascii_lower [Run 0, Save 100, CompileTimer 600] sys0 = Inr w
        \<and> isRunning (app w) \<and> pending w = Some Link \<and> length (terminalLines (app w)) = 3
        \<and> step ascii_lower (Run 700) w = Inr w)
   \<and> \<not> isRunning (app sys0) \<and> files (app sys0) \<noteq> []
   \<and> (\<exists>w4. exec ascii_lower [Run 0, CompileTimer 600, LinkTimer 1000, ExecTimer 1500 1501 1502] sys0 = Inr w4
         \<and> \<not> isRunning (app w4) \<and> pending w4 = None)
   \<and> mount INITIAL_FILES = Inr sys0"
proof -
  let ?w = "sys0\<lparr>app := resume_compile (str ''main.cpp'') 600
                (addLine (str ''System: Workspace saved to local storage.'') System 100
                  (addLine ((str ''$ g++ '') @ (str ''main.cpp'') @ (str '' -o output'')) System 0
                     (seed\<lparr>isRunning := True, terminalLines := []\<rparr>))),
              pending := Some Link\<rparr>"
  have e: "exec ascii_lower [Run 0, Save 100, CompileTimer 600] sys0 = Inr ?w"
    by (simp add: runCode_def seed_active seed_facts saveFiles_def sync_def files_addLine files_seed)
  have r: "isRunning (app ?w)" "length (terminalLines (app ?w)) = 3"
    by (simp_all add: resume_compile_def addLine_def)
  have 1: "step ascii_lower (Run 700) ?w = Inr ?w"
    using running_flag[of ?w ascii_lower 700] r(1) by blast
  have 2: "pending ?w \<noteq> None"
    using running_flag[of ?w ascii_lower _ _ _ _ _ _ _ INITIAL_FILES sys0 "[Run 0, Save 100, CompileTimer 600]"]
      mount_seed e r(1) by blast
  obtain w1 w2 w3 w4 where s:
    "step ascii_lower (Run 0) sys0 = Inr w1" "step ascii_lower (CompileTimer 600) w1 = Inr w2"
    "step ascii_lower (LinkTimer 1000) w2 = Inr w3" "step ascii_lower (ExecTimer 1500 1501 1502) w3 = Inr w4"
    "\<not> isRunning (app w4)"
    using running_flag[of sys0 ascii_lower _ 0 600 1000 1500 1501 1502] seed_facts by auto
  have e4: "exec ascii_lower [Run 0, CompileTimer 600, LinkTimer 1000, ExecTimer 1500 1501 1502] sys0 = Inr w4"
    using s by simp
  have "pending w4 = None"
    using running_flag[of w4 ascii_lower _ _ _ _ _ _ _ INITIAL_FILES sys0
        "[Run 0, CompileTimer 600, LinkTimer 1000, ExecTimer 1500 1501 1502]"]
      mount_seed e4 s(5) by blast
  with e r 1 e4 s(5) mount_seed show ?thesis
    by (simp add: seed_facts)
qed

subsection \<open>C10: the derived active file\<close>

text \<open>
  Claim C10. In every state with a non-empty collection the derived active file exists
  and is a buffer of the collection: the one the pointer names, or the first buffer when
  the pointer names none. So \<open>runCode\<close>, which reads its name, does not throw.
\<close>

theorem activeFile_total:
  assumes "files s = f0 # fs"
  shows "(\<exists>f. activeFile s = Some f \<and> f \<in> set (files s)
            \<and> (activeFileId s \<notin> set (ids s) \<longrightarrow> f = f0)
            \<and> (activeFileId s \<in> set (ids s) \<longrightarrow> file_id f = activeFileId s))
         \<and> (\<forall>now. runCode now s \<noteq> Inl TypeError)"
proof -
  obtain f where f: "activeFile s = Some f" using activeFile_Cons[OF assms] by blast
  have "runCode now s \<noteq> Inl TypeError" for now
    by (simp add: runCode_def f)
  with activeFile_Cons[OF assms] show ?thesis by blast
qed

text \<open>The theorem at the built-in collection and a pointer that names no buffer.\<close>

theorem activeFile_total_witness:
  "files (seed\<lparr>activeFileId := (str ''9'')\<rparr>) = hd INITIAL_FILES # tl INITIAL_FILES
   \<and> (str ''9'') \<notin> set (ids (seed\<lparr>activeFileId := (str ''9'')\<rparr>))
   \<and> activeFile (seed\<lparr>activeFileId := (str ''9'')\<rparr>) = Some (hd INITIAL_FILES)"
  using activeFile_total[of "seed\<lparr>activeFileId := (str ''9'')\<rparr>" "hd INITIAL_FILES" "tl INITIAL_FILES"]
  by (simp add: seed_def INITIAL_FILES_def)

end
